theory Spec2Isabelle
  imports Main "HOL-Library.AList" "HOL-Library.Extended_Nat"
begin

section \<open>Data model of \<^verbatim>\<open>algorithms/graph.py\<close>\<close>

text \<open>
  Python values are referred to by object identity. \<open>Vertex i\<close> is the instance of class
  \<^verbatim>\<open>Vertex\<close> with identity \<open>i\<close> (\<^verbatim>\<open>Vertex.__eq__\<close> is \<^verbatim>\<open>is\<close>, \<^verbatim>\<open>Vertex.__hash__\<close> hashes
  \<^verbatim>\<open>id(self)\<close>); \<open>NonVertex i\<close> is any other value, for which \<^verbatim>\<open>isinstance(v, Vertex)\<close> is false.
\<close>

datatype obj = Vertex nat | NonVertex nat

fun isinstance_Vertex :: "obj \<Rightarrow> bool" where
  "isinstance_Vertex (Vertex i) = True"
| "isinstance_Vertex (NonVertex i) = False"

text \<open>
  An \<^verbatim>\<open>Edge\<close> object: its four slots, and \<open>ident\<close>, the identity of the object. The graph code
  never assigns to a slot of an edge, so an edge object is its identity together with its
  slots. \<open>distance\<close> is whatever number the caller passed.
\<close>

record 'd Edge =
  ident :: nat
  head :: obj
  tail :: obj
  tag :: string
  distance :: 'd

definition endpoints :: "'d Edge \<Rightarrow> obj \<times> obj" where
  "endpoints e = (head e, tail e)"

text \<open>\<^verbatim>\<open>Edge.__eq__\<close>: same head object and same tail object; tag and distance are ignored.\<close>

definition Edge_eq :: "'d Edge \<Rightarrow> 'd Edge \<Rightarrow> bool" where
  "Edge_eq e other = (head e = head other \<and> tail e = tail other)"

datatype error = TypeError | ValueError | KeyError | EmptyQueueError

subsection \<open>Python dictionaries\<close>

text \<open>
  A \<^verbatim>\<open>dict\<close> is an association list in insertion order: assigning to a present key replaces
  the value in place, assigning to a new key appends, reading or popping a missing key raises
  \<^verbatim>\<open>KeyError\<close>.
\<close>

type_synonym ('k, 'v) dict = "('k \<times> 'v) list"

definition has_key :: "('k, 'v) dict \<Rightarrow> 'k \<Rightarrow> bool" where
  "has_key d k = (k \<in> set (map fst d))"

definition getitem :: "('k, 'v) dict \<Rightarrow> 'k \<Rightarrow> error + 'v" where
  "getitem d k = (case map_of d k of None \<Rightarrow> Inl KeyError | Some x \<Rightarrow> Inr x)"

definition setitem :: "('k, 'v) dict \<Rightarrow> 'k \<Rightarrow> 'v \<Rightarrow> ('k, 'v) dict" where
  "setitem d k x = AList.update k x d"

definition pop :: "('k, 'v) dict \<Rightarrow> 'k \<Rightarrow> error + ('v \<times> ('k, 'v) dict)" where
  "pop d k = (case map_of d k of None \<Rightarrow> Inl KeyError | Some x \<Rightarrow> Inr (x, AList.delete k d))"

type_synonym 'd adjacency = "(obj, (obj, 'd Edge) dict) dict"

text \<open>\<^verbatim>\<open>m[u][v] = e\<close>: the inner dictionary \<^verbatim>\<open>m[u]\<close> is looked up, then mutated in place.\<close>

definition setitem2 :: "'d adjacency \<Rightarrow> obj \<Rightarrow> obj \<Rightarrow> 'd Edge \<Rightarrow> error + 'd adjacency" where
  "setitem2 m u v e =
     (case getitem m u of
        Inl err \<Rightarrow> Inl err
      | Inr mu \<Rightarrow> Inr (setitem m u (setitem mu v e)))"

text \<open>\<^verbatim>\<open>m[u].pop(v)\<close>.\<close>

definition pop2 :: "'d adjacency \<Rightarrow> obj \<Rightarrow> obj \<Rightarrow> error + 'd adjacency" where
  "pop2 m u v =
     (case getitem m u of
        Inl err \<Rightarrow> Inl err
      | Inr mu \<Rightarrow>
         (case pop mu v of
            Inl err \<Rightarrow> Inl err
          | Inr (x, mu') \<Rightarrow> Inr (setitem m u mu')))"

subsection \<open>Class \<^verbatim>\<open>Digraph\<close>\<close>

record 'd Digraph =
  outgoing :: "'d adjacency"
  incoming :: "'d adjacency"

definition Digraph_init :: "'d Digraph" where
  "Digraph_init = \<lparr>outgoing = [], incoming = []\<rparr>"

text \<open>\<^verbatim>\<open>vertices()\<close> returns the outgoing dictionary; iterating it yields its keys in order.\<close>

definition vertices :: "'d Digraph \<Rightarrow> obj list" where
  "vertices g = map fst (outgoing g)"

definition contains :: "'d Digraph \<Rightarrow> obj \<Rightarrow> error + bool" where
  "contains g v =
     (if \<not> isinstance_Vertex v then Inl TypeError
      else if v \<in> set (vertices g) then Inr True
      else Inr False)"

definition validate_vertex :: "'d Digraph \<Rightarrow> obj \<Rightarrow> error + unit" where
  "validate_vertex g v =
     (case contains g v of
        Inl err \<Rightarrow> Inl err
      | Inr b \<Rightarrow> if \<not> b then Inl ValueError else Inr ())"

definition vertex_count :: "'d Digraph \<Rightarrow> nat" where
  "vertex_count g = length (outgoing g)"

text \<open>
  \<^verbatim>\<open>sum(len(self._outgoing[v]) for v in self._outgoing)\<close>: \<open>v\<close> ranges over the keys of the
  dictionary that is read, so the read always finds the key.
\<close>

definition edge_count :: "'d Digraph \<Rightarrow> nat" where
  "edge_count g =
     sum_list (map (\<lambda>v. case map_of (outgoing g) v of Some mv \<Rightarrow> length mv | None \<Rightarrow> 0)
                   (map fst (outgoing g)))"

text \<open>
  A Python \<^verbatim>\<open>set\<close> of edges, as the list of its elements: adding an object keeps the set as it
  is when an element equal to it (by \<^verbatim>\<open>Edge.__eq__\<close>) is already there.
\<close>

definition set_add :: "'d Edge list \<Rightarrow> 'd Edge \<Rightarrow> 'd Edge list" where
  "set_add s e = (if \<exists>x \<in> set s. Edge_eq x e then s else s @ [e])"

definition set_update :: "'d Edge list \<Rightarrow> 'd Edge list \<Rightarrow> 'd Edge list" where
  "set_update s es = foldl set_add s es"

definition edges :: "'d Digraph \<Rightarrow> 'd Edge list" where
  "edges g = foldl (\<lambda>result secondary_map. set_update result (map snd secondary_map))
                   [] (map snd (outgoing g))"

definition edge :: "'d Digraph \<Rightarrow> obj \<Rightarrow> obj \<Rightarrow> error + 'd Edge option" where
  "edge g u v =
     (case validate_vertex g u of
        Inl err \<Rightarrow> Inl err
      | Inr _ \<Rightarrow>
         (case validate_vertex g v of
            Inl err \<Rightarrow> Inl err
          | Inr _ \<Rightarrow>
             (case getitem (outgoing g) u of
                Inl err \<Rightarrow> Inl err
              | Inr mu \<Rightarrow>
                 if has_key mu v then map_sum id Some (getitem mu v) else Inr None)))"

definition out_degree :: "'d Digraph \<Rightarrow> obj \<Rightarrow> error + nat" where
  "out_degree g v =
     (case validate_vertex g v of
        Inl err \<Rightarrow> Inl err
      | Inr _ \<Rightarrow> map_sum id length (getitem (outgoing g) v))"

definition in_degree :: "'d Digraph \<Rightarrow> obj \<Rightarrow> error + nat" where
  "in_degree g v =
     (case validate_vertex g v of
        Inl err \<Rightarrow> Inl err
      | Inr _ \<Rightarrow> map_sum id length (getitem (incoming g) v))"

definition predecessors :: "'d Digraph \<Rightarrow> obj \<Rightarrow> error + (obj, 'd Edge) dict" where
  "predecessors g v =
     (case validate_vertex g v of
        Inl err \<Rightarrow> Inl err
      | Inr _ \<Rightarrow> getitem (incoming g) v)"

definition successors :: "'d Digraph \<Rightarrow> obj \<Rightarrow> error + (obj, 'd Edge) dict" where
  "successors g v =
     (case validate_vertex g v of
        Inl err \<Rightarrow> Inl err
      | Inr _ \<Rightarrow> getitem (outgoing g) v)"

definition outgoing_edges :: "'d Digraph \<Rightarrow> obj \<Rightarrow> error + 'd Edge list" where
  "outgoing_edges g v =
     (case validate_vertex g v of
        Inl err \<Rightarrow> Inl err
      | Inr _ \<Rightarrow> map_sum id (map snd) (getitem (outgoing g) v))"

definition incoming_edges :: "'d Digraph \<Rightarrow> obj \<Rightarrow> error + 'd Edge list" where
  "incoming_edges g v =
     (case validate_vertex g v of
        Inl err \<Rightarrow> Inl err
      | Inr _ \<Rightarrow> map_sum id (map snd) (getitem (incoming g) v))"

text \<open>
  The mutating methods return the result of the call (the raised error or the returned value)
  together with the graph as the call leaves it, also when it raises.
\<close>

definition insert_vertex :: "'d Digraph \<Rightarrow> obj \<Rightarrow> (error + obj) \<times> 'd Digraph" where
  "insert_vertex g v =
     (case contains g v of
        Inl err \<Rightarrow> (Inl err, g)
      | Inr b \<Rightarrow>
         if \<not> b then
           (Inr v, g\<lparr>outgoing := setitem (outgoing g) v [],
                     incoming := setitem (incoming g) v []\<rparr>)
         else (Inr v, g))"

text \<open>The two lines \<^verbatim>\<open>if u not in self: self.insert_vertex(u)\<close> of both \<^verbatim>\<open>insert_edge\<close> methods.\<close>

definition insert_if_absent :: "'d Digraph \<Rightarrow> obj \<Rightarrow> (error + unit) \<times> 'd Digraph" where
  "insert_if_absent g u =
     (case contains g u of
        Inl err \<Rightarrow> (Inl err, g)
      | Inr b \<Rightarrow>
         if \<not> b then
           (case insert_vertex g u of
              (Inl err, g1) \<Rightarrow> (Inl err, g1)
            | (Inr _, g1) \<Rightarrow> (Inr (), g1))
         else (Inr (), g))"

definition Digraph_insert_edge :: "'d Digraph \<Rightarrow> 'd Edge \<Rightarrow> (error + 'd Edge) \<times> 'd Digraph" where
  "Digraph_insert_edge g e =
     (case endpoints e of (u, v) \<Rightarrow>
      (case insert_if_absent g u of
         (Inl err, g1) \<Rightarrow> (Inl err, g1)
       | (Inr _, g1) \<Rightarrow>
      (case insert_if_absent g1 v of
         (Inl err, g2) \<Rightarrow> (Inl err, g2)
       | (Inr _, g2) \<Rightarrow>
      (case setitem2 (outgoing g2) u v e of
         Inl err \<Rightarrow> (Inl err, g2)
       | Inr out1 \<Rightarrow>
      (case setitem2 (incoming g2) v u e of
         Inl err \<Rightarrow> (Inl err, g2\<lparr>outgoing := out1\<rparr>)
       | Inr in1 \<Rightarrow> (Inr e, g2\<lparr>outgoing := out1, incoming := in1\<rparr>))))))"

text \<open>\<^verbatim>\<open>if e:\<close> holds for every edge object (class \<^verbatim>\<open>Edge\<close> defines no truth value), and fails for \<^verbatim>\<open>None\<close>.\<close>

definition Digraph_remove_edge ::
  "'d Digraph \<Rightarrow> obj \<Rightarrow> obj \<Rightarrow> (error + 'd Edge option) \<times> 'd Digraph" where
  "Digraph_remove_edge g u v =
     (case edge g u v of
        Inl err \<Rightarrow> (Inl err, g)
      | Inr None \<Rightarrow> (Inr None, g)
      | Inr (Some e) \<Rightarrow>
         (case pop2 (outgoing g) u v of
            Inl err \<Rightarrow> (Inl err, g)
          | Inr out1 \<Rightarrow>
             (case pop2 (incoming g) v u of
                Inl err \<Rightarrow> (Inl err, g\<lparr>outgoing := out1\<rparr>)
              | Inr in1 \<Rightarrow> (Inr (Some e), g\<lparr>outgoing := out1, incoming := in1\<rparr>))))"

definition reverse :: "'d Digraph \<Rightarrow> 'd Digraph" where
  "reverse g = \<lparr>outgoing = incoming g, incoming = outgoing g\<rparr>"

subsection \<open>Class \<^verbatim>\<open>Graph\<close>\<close>

definition Graph_insert_edge :: "'d Digraph \<Rightarrow> 'd Edge \<Rightarrow> (error + 'd Edge) \<times> 'd Digraph" where
  "Graph_insert_edge g e =
     (case endpoints e of (u, v) \<Rightarrow>
      (case insert_if_absent g u of
         (Inl err, g1) \<Rightarrow> (Inl err, g1)
       | (Inr _, g1) \<Rightarrow>
      (case insert_if_absent g1 v of
         (Inl err, g2) \<Rightarrow> (Inl err, g2)
       | (Inr _, g2) \<Rightarrow>
      (case setitem2 (outgoing g2) u v e of
         Inl err \<Rightarrow> (Inl err, g2)
       | Inr out1 \<Rightarrow>
      (case setitem2 (incoming g2) v u e of
         Inl err \<Rightarrow> (Inl err, g2\<lparr>outgoing := out1\<rparr>)
       | Inr in1 \<Rightarrow>
      (case setitem2 out1 v u e of
         Inl err \<Rightarrow> (Inl err, g2\<lparr>outgoing := out1, incoming := in1\<rparr>)
       | Inr out2 \<Rightarrow>
      (case setitem2 in1 u v e of
         Inl err \<Rightarrow> (Inl err, g2\<lparr>outgoing := out2, incoming := in1\<rparr>)
       | Inr in2 \<Rightarrow> (Inr e, g2\<lparr>outgoing := out2, incoming := in2\<rparr>))))))))"

definition Graph_remove_edge ::
  "'d Digraph \<Rightarrow> obj \<Rightarrow> obj \<Rightarrow> (error + 'd Edge option) \<times> 'd Digraph" where
  "Graph_remove_edge g u v =
     (case Digraph_remove_edge g u v of
        (Inl err, g1) \<Rightarrow> (Inl err, g1)
      | (Inr _, g1) \<Rightarrow> Digraph_remove_edge g1 v u)"

subsection \<open>Method dispatch and \<^verbatim>\<open>remove_vertex\<close>\<close>

text \<open>
  \<^verbatim>\<open>remove_vertex\<close> is defined once, in \<^verbatim>\<open>Digraph\<close>, and calls \<^verbatim>\<open>self.remove_edge\<close>: on an
  instance of \<^verbatim>\<open>Graph\<close> that is the overriding method. The class of the receiver is a
  parameter of the model.
\<close>

datatype cls = Digraph_cls | Graph_cls

fun insert_edge :: "cls \<Rightarrow> 'd Digraph \<Rightarrow> 'd Edge \<Rightarrow> (error + 'd Edge) \<times> 'd Digraph" where
  "insert_edge Digraph_cls g e = Digraph_insert_edge g e"
| "insert_edge Graph_cls g e = Graph_insert_edge g e"

fun remove_edge ::
  "cls \<Rightarrow> 'd Digraph \<Rightarrow> obj \<Rightarrow> obj \<Rightarrow> (error + 'd Edge option) \<times> 'd Digraph" where
  "remove_edge Digraph_cls g u v = Digraph_remove_edge g u v"
| "remove_edge Graph_cls g u v = Graph_remove_edge g u v"

text \<open>
  The loop \<^verbatim>\<open>for u in self.vertices()\<close> of \<^verbatim>\<open>remove_vertex\<close>, over the keys still to visit.
  \<^verbatim>\<open>remove_edge\<close> changes inner dictionaries only, so the keys of the dictionary iterated
  over stay as they were when the loop began.
\<close>

fun remove_vertex_loop ::
  "cls \<Rightarrow> obj list \<Rightarrow> 'd Digraph \<Rightarrow> obj \<Rightarrow> (error + unit) \<times> 'd Digraph" where
  "remove_vertex_loop c [] g v = (Inr (), g)"
| "remove_vertex_loop c (u # us) g v =
     (case remove_edge c g u v of
        (Inl err, g1) \<Rightarrow> (Inl err, g1)
      | (Inr _, g1) \<Rightarrow>
         (case remove_edge c g1 v u of
            (Inl err, g2) \<Rightarrow> (Inl err, g2)
          | (Inr _, g2) \<Rightarrow> remove_vertex_loop c us g2 v))"

definition remove_vertex :: "cls \<Rightarrow> 'd Digraph \<Rightarrow> obj \<Rightarrow> (error + unit) \<times> 'd Digraph" where
  "remove_vertex c g v =
     (case validate_vertex g v of
        Inl err \<Rightarrow> (Inl err, g)
      | Inr _ \<Rightarrow>
         (case remove_vertex_loop c (vertices g) g v of
            (Inl err, g1) \<Rightarrow> (Inl err, g1)
          | (Inr _, g1) \<Rightarrow>
             (case pop (incoming g1) v of
                Inl err \<Rightarrow> (Inl err, g1)
              | Inr (x, in1) \<Rightarrow>
                 (case pop (outgoing g1) v of
                    Inl err \<Rightarrow> (Inl err, g1\<lparr>incoming := in1\<rparr>)
                  | Inr (y, out1) \<Rightarrow> (Inr (), g1\<lparr>incoming := in1, outgoing := out1\<rparr>)))))"

subsection \<open>Sequences of calls\<close>

text \<open>
  A graph in use is what a sequence of public calls leaves of a new graph; a call that
  raises leaves the graph as it was when the error occurred.
\<close>

datatype 'd call =
    Insert_vertex obj
  | Insert_edge "'d Edge"
  | Remove_edge obj obj
  | Remove_vertex obj
  | Reverse

fun do_call :: "cls \<Rightarrow> 'd Digraph \<Rightarrow> 'd call \<Rightarrow> 'd Digraph" where
  "do_call c g (Insert_vertex v) = snd (insert_vertex g v)"
| "do_call c g (Insert_edge e) = snd (insert_edge c g e)"
| "do_call c g (Remove_edge u v) = snd (remove_edge c g u v)"
| "do_call c g (Remove_vertex v) = snd (remove_vertex c g v)"
| "do_call c g Reverse = reverse g"

definition build :: "cls \<Rightarrow> 'd call list \<Rightarrow> 'd Digraph" where
  "build c calls = foldl (do_call c) Digraph_init calls"

subsection \<open>Views used to state properties\<close>

definition keys :: "('k, 'v) dict \<Rightarrow> 'k set" where
  "keys d = set (map fst d)"

text \<open>The entry \<^verbatim>\<open>m[u][v]\<close> of an adjacency map, \<open>None\<close> when \<open>u\<close> or \<open>v\<close> is not a key.\<close>

definition lookup2 :: "'d adjacency \<Rightarrow> obj \<Rightarrow> obj \<Rightarrow> 'd Edge option" where
  "lookup2 m u v = (case map_of m u of None \<Rightarrow> None | Some mu \<Rightarrow> map_of mu v)"

text \<open>Every edge object held anywhere in an adjacency map.\<close>

definition stored :: "'d adjacency \<Rightarrow> 'd Edge set" where
  "stored m = set (concat (map (\<lambda>mu. map snd mu) (map snd m)))"

text \<open>No key occurs twice, in the outer dictionary or in an inner one.\<close>

definition dict_ok :: "'d adjacency \<Rightarrow> bool" where
  "dict_ok m = (distinct (map fst m) \<and> list_all (\<lambda>mu. distinct (map fst mu)) (map snd m))"

text \<open>An edge object between \<open>x\<close> and \<open>y\<close>, in one direction or the other.\<close>

definition joins :: "'d Edge \<Rightarrow> obj \<Rightarrow> obj \<Rightarrow> bool" where
  "joins e x y = ((head e = x \<and> tail e = y) \<or> (head e = y \<and> tail e = x))"

text \<open>
  What the methods keep true of the two adjacency maps: they are dictionaries, over the
  same vertices, all of class \<^verbatim>\<open>Vertex\<close>; the incoming map is the outgoing map with the two
  keys exchanged; the entry under \<open>u\<close>, \<open>v\<close> is an edge between \<open>u\<close> and \<open>v\<close>.
\<close>

definition consistent :: "'d Digraph \<Rightarrow> bool" where
  "consistent g =
     (dict_ok (outgoing g) \<and> dict_ok (incoming g) \<and>
      keys (outgoing g) = keys (incoming g) \<and>
      (\<forall>k \<in> keys (outgoing g). isinstance_Vertex k) \<and>
      (\<forall>u v. lookup2 (outgoing g) u v = lookup2 (incoming g) v u) \<and>
      (\<forall>u v e. lookup2 (outgoing g) u v = Some e \<longrightarrow> joins e u v))"

text \<open>The undirected graph keeps, moreover, its two adjacency maps equal.\<close>

definition mirrored :: "'d Digraph \<Rightarrow> bool" where
  "mirrored g = (consistent g \<and> incoming g = outgoing g)"

text \<open>
  The adjacency map after \<^verbatim>\<open>m[u][v] = e\<close> and after \<^verbatim>\<open>m[u].pop(v)\<close>, and the graph after
  \<^verbatim>\<open>insert_vertex(v)\<close>, where these calls do not raise.
\<close>

definition put2 :: "'d adjacency \<Rightarrow> obj \<Rightarrow> obj \<Rightarrow> 'd Edge \<Rightarrow> 'd adjacency" where
  "put2 m u v e =
     (case map_of m u of None \<Rightarrow> m | Some mu \<Rightarrow> setitem m u (setitem mu v e))"

definition del2 :: "'d adjacency \<Rightarrow> obj \<Rightarrow> obj \<Rightarrow> 'd adjacency" where
  "del2 m u v =
     (case map_of m u of None \<Rightarrow> m | Some mu \<Rightarrow> setitem m u (AList.delete v mu))"

definition add_vertex :: "'d Digraph \<Rightarrow> obj \<Rightarrow> 'd Digraph" where
  "add_vertex g v =
     (if v \<in> keys (outgoing g) then g
      else g\<lparr>outgoing := setitem (outgoing g) v [], incoming := setitem (incoming g) v []\<rparr>)"

text \<open>
  The graph after \<^verbatim>\<open>insert_edge(e)\<close> of either class and after \<^verbatim>\<open>Digraph.remove_edge(u, v)\<close>,
  where these calls do not raise.
\<close>

definition Digraph_inserted :: "'d Digraph \<Rightarrow> 'd Edge \<Rightarrow> 'd Digraph" where
  "Digraph_inserted g e =
     (let g2 = add_vertex (add_vertex g (head e)) (tail e)
      in g2\<lparr>outgoing := put2 (outgoing g2) (head e) (tail e) e,
             incoming := put2 (incoming g2) (tail e) (head e) e\<rparr>)"

definition Graph_inserted :: "'d Digraph \<Rightarrow> 'd Edge \<Rightarrow> 'd Digraph" where
  "Graph_inserted g e =
     (let g2 = add_vertex (add_vertex g (head e)) (tail e)
      in g2\<lparr>outgoing := put2 (put2 (outgoing g2) (head e) (tail e) e) (tail e) (head e) e,
             incoming := put2 (put2 (incoming g2) (tail e) (head e) e) (head e) (tail e) e\<rparr>)"

definition removed :: "'d Digraph \<Rightarrow> obj \<Rightarrow> obj \<Rightarrow> 'd Digraph" where
  "removed g u v = g\<lparr>outgoing := del2 (outgoing g) u v, incoming := del2 (incoming g) v u\<rparr>"

text \<open>
  The length of the inner dictionary under a key, and the total over the keys: what
  \<^verbatim>\<open>edge_count\<close> returns when no key occurs twice.
\<close>

definition len_at :: "'d adjacency \<Rightarrow> obj \<Rightarrow> nat" where
  "len_at m u = (case map_of m u of Some mu \<Rightarrow> length mu | None \<Rightarrow> 0)"

definition entries :: "'d adjacency \<Rightarrow> nat" where
  "entries m = sum (len_at m) (keys m)"

text \<open>The objects given to the set of \<^verbatim>\<open>edges()\<close>, in the order in which they are added.\<close>

definition values2 :: "'d adjacency \<Rightarrow> 'd Edge list" where
  "values2 m = concat (map (\<lambda>mu. map snd mu) (map snd m))"

text \<open>Every entry \<^verbatim>\<open>m[u][v]\<close> is an edge with head \<open>u\<close> and tail \<open>v\<close>.\<close>

definition aligned :: "'d adjacency \<Rightarrow> bool" where
  "aligned m = (\<forall>u v e. lookup2 m u v = Some e \<longrightarrow> head e = u \<and> tail e = v)"

text \<open>
  Two edge objects between the same vertices, and calls that leave the first of them under
  two ordered pairs of a digraph.
\<close>

definition first_edge :: "int Edge" where
  "first_edge = \<lparr>ident = 0, head = Vertex 0, tail = Vertex 1, tag = ''e1'', distance = 1\<rparr>"

definition second_edge :: "int Edge" where
  "second_edge = \<lparr>ident = 1, head = Vertex 0, tail = Vertex 1, tag = ''e2'', distance = 1\<rparr>"

definition reversed_calls :: "int call list" where
  "reversed_calls =
     [Insert_vertex (Vertex 1), Insert_vertex (Vertex 0), Insert_edge first_edge, Reverse,
      Insert_edge first_edge]"

section \<open>Breadth-first traversal\<close>

subsection \<open>Class \<^verbatim>\<open>Vertex\<close> and the queue of \<^verbatim>\<open>algorithms/linkedqueue.py\<close>\<close>

datatype color = White | Gray | Black

text \<open>
  The fields of a \<^verbatim>\<open>Vertex\<close> object; \<open>vertex_tag\<close> and \<open>vertex_distance\<close> are the fields
  \<^verbatim>\<open>_tag\<close> and \<^verbatim>\<open>distance\<close>. A distance is a count of edges or \<^verbatim>\<open>float('inf')\<close>.
\<close>

record Vertex_fields =
  vertex_tag :: string
  color :: color
  predecessor :: "obj option"
  vertex_distance :: enat
  discover :: nat
  finish :: nat

definition Vertex_init :: "string \<Rightarrow> Vertex_fields" where
  "Vertex_init t =
     \<lparr>vertex_tag = t, color = White, predecessor = None, vertex_distance = \<infinity>,
      discover = 0, finish = 0\<rparr>"

text \<open>
  \<^verbatim>\<open>LinkedQueue\<close>: \<^verbatim>\<open>enqueue\<close> adds at the back, \<^verbatim>\<open>dequeue\<close> raises on an empty queue and
  otherwise removes and returns the front element. The queue keeps its elements in a
  \<^verbatim>\<open>DoublyLinkedList\<close>, a class that is not among the sources: its \<^verbatim>\<open>push_back\<close>,
  \<^verbatim>\<open>pop_front\<close> and \<^verbatim>\<open>is_empty\<close> are taken to do what the docstrings of the queue say, on
  the list of the elements from front to back.
\<close>

definition is_empty :: "'a list \<Rightarrow> bool" where
  "is_empty q = (length q = 0)"

definition enqueue :: "'a list \<Rightarrow> 'a \<Rightarrow> 'a list" where
  "enqueue q x = q @ [x]"

definition dequeue :: "'a list \<Rightarrow> error + ('a \<times> 'a list)" where
  "dequeue q =
     (if is_empty q then Inl EmptyQueueError
      else (case q of x # q' \<Rightarrow> Inr (x, q') | [] \<Rightarrow> Inl EmptyQueueError))"

subsection \<open>The traversal\<close>

text \<open>
  Modelled from the spec: the module \<^verbatim>\<open>algorithms/graphalgo.py\<close>, which \<^verbatim>\<open>chap14/bfs.py\<close>
  imports for \<^verbatim>\<open>complete_breadth_first_search\<close>, is not among the sources. The definitions of
  this subsection follow the description of the breadth-first traversal in the
  specification: all vertices start white, at distance infinity and without predecessor;
  a seed turns gray at distance zero; the gray vertex at the front of the FIFO frontier is
  dequeued, each white successor gets it as predecessor, its distance plus one, turns gray
  and is enqueued, then the dequeued vertex turns black; one counter numbers the moments of
  discovery and of finishing. The objects of the vertices are a store from vertex to fields.
\<close>

record traversal =
  store :: "obj \<Rightarrow> Vertex_fields"
  frontier :: "obj list"
  counter :: nat

definition initialize :: "'d Digraph \<Rightarrow> traversal \<Rightarrow> traversal" where
  "initialize g st =
     foldl (\<lambda>s v. s\<lparr>store := (store s)(v := (store s v)\<lparr>color := White,
                        vertex_distance := \<infinity>, predecessor := None\<rparr>)\<rparr>)
           st (vertices g)"

definition seed :: "traversal \<Rightarrow> obj \<Rightarrow> traversal" where
  "seed st s =
     st\<lparr>store := (store st)(s := (store st s)\<lparr>color := Gray, vertex_distance := 0,
                     discover := counter st + 1\<rparr>),
        frontier := enqueue (frontier st) s,
        counter := counter st + 1\<rparr>"

definition scan :: "obj \<Rightarrow> traversal \<Rightarrow> obj \<Rightarrow> traversal" where
  "scan u st w =
     (if color (store st w) = White then
        st\<lparr>store := (store st)(w := (store st w)\<lparr>predecessor := Some u,
                        vertex_distance := vertex_distance (store st u) + 1,
                        color := Gray, discover := counter st + 1\<rparr>),
           frontier := enqueue (frontier st) w,
           counter := counter st + 1\<rparr>
      else st)"

definition blacken :: "traversal \<Rightarrow> obj \<Rightarrow> traversal" where
  "blacken st u =
     st\<lparr>store := (store st)(u := (store st u)\<lparr>color := Black, finish := counter st + 1\<rparr>),
        counter := counter st + 1\<rparr>"

text \<open>The frontier loop; a traversal that does not end has the value \<open>None\<close>.\<close>

partial_function (option) process_frontier ::
  "'d Digraph \<Rightarrow> traversal \<Rightarrow> (error + traversal) option" where
  "process_frontier g st =
     (if is_empty (frontier st) then Some (Inr st)
      else
        (case dequeue (frontier st) of
           Inl err \<Rightarrow> Some (Inl err)
         | Inr (u, q) \<Rightarrow>
            (case successors g u of
               Inl err \<Rightarrow> Some (Inl err)
             | Inr su \<Rightarrow>
                process_frontier g
                  (blacken (foldl (scan u) (st\<lparr>frontier := q\<rparr>) (map fst su)) u))))"

declare process_frontier.simps [code]

definition breadth_first_search ::
  "'d Digraph \<Rightarrow> traversal \<Rightarrow> obj list \<Rightarrow> (error + traversal) option" where
  "breadth_first_search g st sources =
     process_frontier g (foldl seed (initialize g st) sources)"

text \<open>The complete traversal: the loop is started again from each vertex that is still white.\<close>

fun restart :: "'d Digraph \<Rightarrow> obj list \<Rightarrow> traversal \<Rightarrow> (error + traversal) option" where
  "restart g [] st = Some (Inr st)"
| "restart g (v # vs) st =
     (if color (store st v) = White then
        (case process_frontier g (seed st v) of
           None \<Rightarrow> None
         | Some (Inl err) \<Rightarrow> Some (Inl err)
         | Some (Inr st1) \<Rightarrow> restart g vs st1)
      else restart g vs st)"

definition complete_breadth_first_search ::
  "'d Digraph \<Rightarrow> traversal \<Rightarrow> (error + traversal) option" where
  "complete_breadth_first_search g st = restart g (vertices g) (initialize g st)"

subsection \<open>The program of \<^verbatim>\<open>chap14/bfs.py\<close>\<close>

text \<open>The vertices A, B, C, D, in the order of their creation.\<close>

definition bfs_a :: obj where "bfs_a = Vertex 0"
definition bfs_b :: obj where "bfs_b = Vertex 1"
definition bfs_c :: obj where "bfs_c = Vertex 2"
definition bfs_d :: obj where "bfs_d = Vertex 3"

definition Edge_init :: "nat \<Rightarrow> obj \<Rightarrow> obj \<Rightarrow> string \<Rightarrow> int Edge" where
  "Edge_init i u v t = \<lparr>ident = i, head = u, tail = v, tag = t, distance = 1\<rparr>"

text \<open>The seven calls of \<^verbatim>\<open>insert_edge\<close>, and the digraph they build.\<close>

definition bfs_calls :: "int call list" where
  "bfs_calls =
     [Insert_edge (Edge_init 0 bfs_a bfs_b ''AB''), Insert_edge (Edge_init 1 bfs_b bfs_a ''BA''),
      Insert_edge (Edge_init 2 bfs_a bfs_c ''AC''), Insert_edge (Edge_init 3 bfs_c bfs_a ''CA''),
      Insert_edge (Edge_init 4 bfs_a bfs_d ''AD''), Insert_edge (Edge_init 5 bfs_b bfs_c ''BC''),
      Insert_edge (Edge_init 6 bfs_b bfs_d ''BD'')]"

definition bfs_graph :: "int Digraph" where
  "bfs_graph = build Digraph_cls bfs_calls"

definition bfs_start :: traversal where
  "bfs_start =
     \<lparr>store = (\<lambda>v. Vertex_init (if v = bfs_a then ''A'' else if v = bfs_b then ''B''
                                 else if v = bfs_c then ''C'' else ''D'')),
      frontier = [], counter = 0\<rparr>"

section \<open>Properties of the model\<close>

subsection \<open>Properties of the dictionaries\<close>

lemma keys_setitem: "keys (setitem d k x) = insert k (keys d)"
  by (simp add: keys_def setitem_def dom_update)

lemma map_of_setitem: "map_of (setitem d k x) = (map_of d)(k \<mapsto> x)"
  by (simp add: setitem_def update_conv')

lemma distinct_setitem: "distinct (map fst d) \<Longrightarrow> distinct (map fst (setitem d k x))"
  by (simp add: setitem_def distinct_update)

lemma keys_delete: "keys (AList.delete k d) = keys d - {k}"
  by (auto simp: keys_def delete_keys)

lemma map_of_None_keys: "(map_of d k = None) = (k \<notin> keys d)"
  by (simp add: keys_def map_of_eq_None_iff)

lemma map_of_Some_keys: "map_of d k = Some x \<Longrightarrow> k \<in> keys d"
  using map_of_None_keys [of d k] by auto

lemma has_key_keys: "has_key d k = (k \<in> keys d)"
  by (simp add: has_key_def keys_def)

lemma getitem_Some: "map_of d k = Some x \<Longrightarrow> getitem d k = Inr x"
  by (simp add: getitem_def)

lemma getitem_None: "map_of d k = None \<Longrightarrow> getitem d k = Inl KeyError"
  by (simp add: getitem_def)

lemma map_fst_setitem_present: "k \<in> keys d \<Longrightarrow> map fst (setitem d k x) = map fst d"
  by (induction d) (auto simp: setitem_def keys_def)

lemma map_fst_setitem_absent: "k \<notin> keys d \<Longrightarrow> setitem d k x = d @ [(k, x)]"
  by (induction d) (auto simp: setitem_def keys_def)

lemma length_setitem: "length (setitem d k x) = (if k \<in> keys d then length d else Suc (length d))"
  by (induction d) (auto simp: setitem_def keys_def)

lemma setitem_same: "map_of d k = Some x \<Longrightarrow> setitem d k x = d"
  by (simp add: setitem_def update_triv)

lemma values_setitem: "set (map snd (setitem d k x)) \<subseteq> insert x (set (map snd d))"
  by (induction d) (auto simp: setitem_def)

lemma values_delete: "set (map snd (AList.delete k d)) \<subseteq> set (map snd d)"
  by (induction d) (auto)

lemma dict_ok_iff:
  "dict_ok m = (distinct (map fst m) \<and> (\<forall>u mu. map_of m u = Some mu \<longrightarrow> distinct (map fst mu)))"
  by (fastforce simp: dict_ok_def list_all_iff dest: map_of_SomeD)

lemma dict_ok_setitem:
  "dict_ok m \<Longrightarrow> distinct (map fst x) \<Longrightarrow> dict_ok (setitem m k x)"
  by (auto simp: dict_ok_iff distinct_setitem map_of_setitem)

lemma dict_ok_delete: "dict_ok m \<Longrightarrow> dict_ok (AList.delete k m)"
  by (auto simp: dict_ok_iff distinct_delete delete_conv')

lemma dict_ok_inner: "dict_ok m \<Longrightarrow> map_of m u = Some mu \<Longrightarrow> distinct (map fst mu)"
  by (auto simp: dict_ok_iff)

lemma lookup2_setitem:
  "lookup2 (setitem m k x) u v = (if u = k then map_of x v else lookup2 m u v)"
  by (simp add: lookup2_def map_of_setitem)

lemma lookup2_delete:
  "lookup2 (AList.delete k m) u v = (if u = k then None else lookup2 m u v)"
  by (simp add: lookup2_def delete_conv')

lemma lookup2_keys: "lookup2 m u v = Some e \<Longrightarrow> u \<in> keys m"
  by (auto simp: lookup2_def dest: map_of_Some_keys split: option.splits)

lemma lookup2_not_key: "u \<notin> keys m \<Longrightarrow> lookup2 m u v = None"
  by (auto simp: lookup2_def map_of_None_keys [symmetric] split: option.splits)

lemma keys_put2: "keys (put2 m u v e) = keys m"
  by (auto simp: put2_def keys_setitem dest: map_of_Some_keys split: option.splits)

lemma keys_del2: "keys (del2 m u v) = keys m"
  by (auto simp: del2_def keys_setitem dest: map_of_Some_keys split: option.splits)

lemma map_fst_put2: "map fst (put2 m u v e) = map fst m"
  by (auto simp: put2_def map_fst_setitem_present dest: map_of_Some_keys split: option.splits)

lemma map_fst_del2: "map fst (del2 m u v) = map fst m"
  by (auto simp: del2_def map_fst_setitem_present dest: map_of_Some_keys split: option.splits)

lemma lookup2_put2:
  "lookup2 (put2 m u v e) x y = (if x = u \<and> y = v \<and> u \<in> keys m then Some e else lookup2 m x y)"
  by (auto simp: put2_def lookup2_setitem map_of_setitem lookup2_def map_of_None_keys [symmetric]
           split: option.splits)

lemma lookup2_del2:
  "lookup2 (del2 m u v) x y = (if x = u \<and> y = v then None else lookup2 m x y)"
proof (cases "map_of m u")
  case None
  then show ?thesis by (auto simp: del2_def lookup2_def)
next
  case (Some mu)
  then show ?thesis by (auto simp: del2_def lookup2_def map_of_setitem delete_conv')
qed

lemma dict_ok_put2: "dict_ok m \<Longrightarrow> dict_ok (put2 m u v e)"
  by (auto simp: put2_def split: option.splits
           intro!: dict_ok_setitem distinct_setitem dest: dict_ok_inner)

lemma dict_ok_del2: "dict_ok m \<Longrightarrow> dict_ok (del2 m u v)"
  by (auto simp: del2_def distinct_delete split: option.splits
           intro!: dict_ok_setitem dest: dict_ok_inner)

lemma del2_absent: "lookup2 m u v = None \<Longrightarrow> del2 m u v = m"
proof (cases "map_of m u")
  case None
  then show ?thesis by (simp add: del2_def)
next
  case (Some mu)
  assume "lookup2 m u v = None"
  with Some have "v \<notin> fst ` set mu"
    by (simp add: lookup2_def map_of_eq_None_iff)
  then have "AList.delete v mu = mu" by simp
  with Some show ?thesis by (simp add: del2_def setitem_same)
qed

lemma setitem2_put2: "u \<in> keys m \<Longrightarrow> setitem2 m u v e = Inr (put2 m u v e)"
  using map_of_None_keys [of m u]
  by (auto simp: setitem2_def put2_def getitem_def split: option.splits)

lemma pop2_del2: "lookup2 m u v = Some e \<Longrightarrow> pop2 m u v = Inr (del2 m u v)"
  by (auto simp: pop2_def del2_def getitem_def pop_def lookup2_def split: option.splits)

subsection \<open>Membership and the effect of the methods\<close>

lemma contains_cases:
  "contains g v =
     (if \<not> isinstance_Vertex v then Inl TypeError else Inr (v \<in> keys (outgoing g)))"
  by (simp add: contains_def vertices_def keys_def)

lemma validate_vertex_cases:
  "validate_vertex g v =
     (if \<not> isinstance_Vertex v then Inl TypeError
      else if v \<in> keys (outgoing g) then Inr () else Inl ValueError)"
  by (simp add: validate_vertex_def contains_cases)

lemma consistent_member_Vertex:
  "consistent g \<Longrightarrow> v \<in> keys (outgoing g) \<Longrightarrow> isinstance_Vertex v"
  by (simp add: consistent_def)

lemma validate_vertex_member:
  "consistent g \<Longrightarrow> v \<in> keys (outgoing g) \<Longrightarrow> validate_vertex g v = Inr ()"
  by (simp add: validate_vertex_cases consistent_member_Vertex)

lemma validate_vertex_error:
  "consistent g \<Longrightarrow> v \<notin> keys (outgoing g) \<Longrightarrow>
   validate_vertex g v = Inl (if isinstance_Vertex v then ValueError else TypeError)"
  by (simp add: validate_vertex_cases)

lemma edge_member:
  assumes "consistent g" "u \<in> keys (outgoing g)" "v \<in> keys (outgoing g)"
  shows "edge g u v = Inr (lookup2 (outgoing g) u v)"
proof -
  obtain mu where mu: "map_of (outgoing g) u = Some mu"
    using assms(2) map_of_None_keys [of "outgoing g" u] by auto
  show ?thesis
  proof (cases "map_of mu v")
    case None
    then have "\<not> has_key mu v" by (simp add: has_key_keys map_of_None_keys)
    with mu None assms show ?thesis
      by (simp add: edge_def validate_vertex_member getitem_def lookup2_def)
  next
    case (Some e)
    then have "has_key mu v" by (simp add: has_key_keys map_of_Some_keys)
    with mu Some assms show ?thesis
      by (simp add: edge_def validate_vertex_member getitem_def lookup2_def)
  qed
qed

lemma edge_error:
  assumes "consistent g" "u \<notin> keys (outgoing g) \<or> v \<notin> keys (outgoing g)"
  shows "\<exists>err. edge g u v = Inl err"
  using assms
  by (auto simp: edge_def validate_vertex_cases)

lemma edge_not_member_Vertex:
  assumes "isinstance_Vertex u" "isinstance_Vertex v"
    "u \<notin> keys (outgoing g) \<or> v \<notin> keys (outgoing g)"
  shows "edge g u v = Inl ValueError"
  using assms
  by (auto simp: edge_def validate_vertex_cases)

lemma insert_vertex_eq:
  "insert_vertex g v =
     (if isinstance_Vertex v then (Inr v, add_vertex g v) else (Inl TypeError, g))"
  by (simp add: insert_vertex_def contains_cases add_vertex_def)

lemma insert_if_absent_eq:
  "insert_if_absent g v =
     (if isinstance_Vertex v then (Inr (), add_vertex g v) else (Inl TypeError, g))"
  by (simp add: insert_if_absent_def insert_vertex_eq contains_cases add_vertex_def)

lemma keys_outgoing_add_vertex:
  "keys (outgoing (add_vertex g v)) = insert v (keys (outgoing g))"
  by (auto simp: add_vertex_def keys_setitem)

lemma lookup2_outgoing_add_vertex:
  "lookup2 (outgoing (add_vertex g v)) x y = lookup2 (outgoing g) x y"
  by (simp add: add_vertex_def lookup2_setitem lookup2_not_key)

lemma keys_incoming_add_vertex:
  "consistent g \<Longrightarrow> keys (incoming (add_vertex g v)) = insert v (keys (incoming g))"
  by (auto simp: add_vertex_def keys_setitem consistent_def)

lemma lookup2_incoming_add_vertex:
  "consistent g \<Longrightarrow> lookup2 (incoming (add_vertex g v)) x y = lookup2 (incoming g) x y"
  by (simp add: add_vertex_def lookup2_setitem lookup2_not_key consistent_def)

lemma consistent_add_vertex:
  assumes "consistent g" "isinstance_Vertex v"
  shows "consistent (add_vertex g v)"
proof (cases "v \<in> keys (outgoing g)")
  case True
  with assms show ?thesis by (simp add: add_vertex_def)
next
  case False
  have "dict_ok (setitem (outgoing g) v [])" "dict_ok (setitem (incoming g) v [])"
    using assms(1) by (simp_all add: consistent_def dict_ok_setitem)
  moreover have "\<forall>x y. lookup2 (outgoing (add_vertex g v)) x y
      = lookup2 (incoming (add_vertex g v)) y x"
    using assms(1)
    by (simp add: lookup2_outgoing_add_vertex lookup2_incoming_add_vertex consistent_def)
  moreover have "\<forall>x y e. lookup2 (outgoing (add_vertex g v)) x y = Some e \<longrightarrow> joins e x y"
    using assms(1) by (simp add: lookup2_outgoing_add_vertex consistent_def)
  ultimately show ?thesis
    using assms False
    unfolding consistent_def [of "add_vertex g v"]
    by (simp add: keys_outgoing_add_vertex keys_incoming_add_vertex)
       (simp add: add_vertex_def consistent_def)
qed

lemma joins_own: "joins e (head e) (tail e)" "joins e (tail e) (head e)"
  by (simp_all add: joins_def)

lemma joins_commute: "joins e x y = joins e y x"
  by (auto simp: joins_def)

lemma consistent_keys: "consistent g \<Longrightarrow> keys (incoming g) = keys (outgoing g)"
  by (simp add: consistent_def)

lemma consistent_lookup2:
  "consistent g \<Longrightarrow> lookup2 (incoming g) v u = lookup2 (outgoing g) u v"
  by (simp add: consistent_def)

lemma consistent_joins:
  "consistent g \<Longrightarrow> lookup2 (outgoing g) u v = Some e \<Longrightarrow> joins e u v"
  by (simp add: consistent_def)

lemma consistent_put2:
  assumes "consistent g" "u \<in> keys (outgoing g)" "v \<in> keys (outgoing g)" "joins e u v"
  shows "consistent (g\<lparr>outgoing := put2 (outgoing g) u v e, incoming := put2 (incoming g) v u e\<rparr>)"
proof -
  have k: "keys (incoming g) = keys (outgoing g)" using assms(1) by (simp add: consistent_def)
  have s: "\<And>x y. lookup2 (incoming g) y x = lookup2 (outgoing g) x y"
    using assms(1) by (simp add: consistent_def)
  have j: "\<And>x y e'. lookup2 (outgoing g) x y = Some e' \<Longrightarrow> joins e' x y"
    using assms(1) by (simp add: consistent_def)
  show ?thesis
    unfolding consistent_def
    using assms k
    by (auto simp: dict_ok_put2 keys_put2 lookup2_put2 s consistent_def dest: j)
qed

lemma consistent_Digraph_inserted:
  assumes "consistent g" "isinstance_Vertex (head e)" "isinstance_Vertex (tail e)"
  shows "consistent (Digraph_inserted g e)"
proof -
  let ?g2 = "add_vertex (add_vertex g (head e)) (tail e)"
  have "consistent ?g2" using assms by (simp add: consistent_add_vertex)
  moreover have "head e \<in> keys (outgoing ?g2)" "tail e \<in> keys (outgoing ?g2)"
    by (simp_all add: keys_outgoing_add_vertex)
  ultimately show ?thesis
    unfolding Digraph_inserted_def Let_def
    by (rule consistent_put2) (simp_all add: joins_own)
qed

lemma consistent_Graph_inserted:
  assumes "consistent g" "isinstance_Vertex (head e)" "isinstance_Vertex (tail e)"
  shows "consistent (Graph_inserted g e)"
proof -
  let ?g2 = "add_vertex (add_vertex g (head e)) (tail e)"
  let ?g3 = "?g2\<lparr>outgoing := put2 (outgoing ?g2) (head e) (tail e) e,
                 incoming := put2 (incoming ?g2) (tail e) (head e) e\<rparr>"
  have c2: "consistent ?g2" using assms by (simp add: consistent_add_vertex)
  have m: "head e \<in> keys (outgoing ?g2)" "tail e \<in> keys (outgoing ?g2)"
    by (simp_all add: keys_outgoing_add_vertex)
  have c3: "consistent ?g3"
    using c2 m by (rule consistent_put2) (simp add: joins_own)
  have "consistent (?g3\<lparr>outgoing := put2 (outgoing ?g3) (tail e) (head e) e,
                        incoming := put2 (incoming ?g3) (head e) (tail e) e\<rparr>)"
    using c3 by (rule consistent_put2) (simp_all add: keys_put2 m joins_own)
  then show ?thesis
    by (simp add: Graph_inserted_def Let_def)
qed

lemma Digraph_insert_edge_cases:
  assumes "consistent g"
  shows "Digraph_insert_edge g e =
     (if \<not> isinstance_Vertex (head e) then (Inl TypeError, g)
      else if \<not> isinstance_Vertex (tail e) then (Inl TypeError, add_vertex g (head e))
      else (Inr e, Digraph_inserted g e))"
proof (cases "isinstance_Vertex (head e) \<and> isinstance_Vertex (tail e)")
  case False
  then show ?thesis
    by (auto simp: Digraph_insert_edge_def endpoints_def insert_if_absent_eq)
next
  case True
  let ?g2 = "add_vertex (add_vertex g (head e)) (tail e)"
  have c2: "consistent ?g2" using assms True by (simp add: consistent_add_vertex)
  have "head e \<in> keys (outgoing ?g2)" by (simp add: keys_outgoing_add_vertex)
  moreover have "tail e \<in> keys (incoming ?g2)"
    using consistent_keys [OF c2] by (simp add: keys_outgoing_add_vertex)
  ultimately show ?thesis
    using True
    by (simp add: Digraph_insert_edge_def endpoints_def insert_if_absent_eq setitem2_put2
        Digraph_inserted_def Let_def)
qed

lemma Graph_insert_edge_cases:
  assumes "consistent g"
  shows "Graph_insert_edge g e =
     (if \<not> isinstance_Vertex (head e) then (Inl TypeError, g)
      else if \<not> isinstance_Vertex (tail e) then (Inl TypeError, add_vertex g (head e))
      else (Inr e, Graph_inserted g e))"
proof (cases "isinstance_Vertex (head e) \<and> isinstance_Vertex (tail e)")
  case False
  then show ?thesis
    by (auto simp: Graph_insert_edge_def endpoints_def insert_if_absent_eq)
next
  case True
  let ?g2 = "add_vertex (add_vertex g (head e)) (tail e)"
  have c2: "consistent ?g2" using assms True by (simp add: consistent_add_vertex)
  have k: "keys (incoming ?g2) = keys (outgoing ?g2)"
    using c2 by (rule consistent_keys)
  have "head e \<in> keys (outgoing ?g2)" "tail e \<in> keys (outgoing ?g2)"
    by (simp_all add: keys_outgoing_add_vertex)
  then show ?thesis
    using True k
    by (simp add: Graph_insert_edge_def endpoints_def insert_if_absent_eq setitem2_put2
        keys_put2 Graph_inserted_def Let_def)
qed

lemma consistent_removed:
  assumes "consistent g"
  shows "consistent (removed g u v)"
proof -
  have s: "\<And>x y. lookup2 (incoming g) y x = lookup2 (outgoing g) x y"
    using assms by (simp add: consistent_def)
  have j: "\<And>x y e'. lookup2 (outgoing g) x y = Some e' \<Longrightarrow> joins e' x y"
    using assms by (simp add: consistent_def)
  show ?thesis
    unfolding consistent_def removed_def
    using assms
    by (auto simp: dict_ok_del2 keys_del2 lookup2_del2 s consistent_def dest: j)
qed

lemma Digraph_remove_edge_member:
  assumes "consistent g" "u \<in> keys (outgoing g)" "v \<in> keys (outgoing g)"
  shows "Digraph_remove_edge g u v = (Inr (lookup2 (outgoing g) u v), removed g u v)"
proof (cases "lookup2 (outgoing g) u v")
  case None
  moreover from None assms(1) have "lookup2 (incoming g) v u = None"
    by (simp add: consistent_def)
  ultimately show ?thesis
    using assms by (simp add: Digraph_remove_edge_def edge_member removed_def del2_absent)
next
  case (Some e)
  moreover from Some assms(1) have "lookup2 (incoming g) v u = Some e"
    by (simp add: consistent_def)
  ultimately show ?thesis
    using assms by (simp add: Digraph_remove_edge_def edge_member removed_def pop2_del2)
qed

lemma Digraph_remove_edge_not_member:
  assumes "u \<notin> keys (outgoing g) \<or> v \<notin> keys (outgoing g)"
  shows "\<exists>err. Digraph_remove_edge g u v = (Inl err, g)"
  using assms
  by (auto simp: Digraph_remove_edge_def edge_def validate_vertex_cases)

lemma consistent_Digraph_remove_edge:
  "consistent g \<Longrightarrow> consistent (snd (Digraph_remove_edge g u v))"
  using Digraph_remove_edge_member [of g u v] Digraph_remove_edge_not_member [of u g v]
  by (cases "u \<in> keys (outgoing g) \<and> v \<in> keys (outgoing g)") (auto simp: consistent_removed)

lemma keys_removed: "keys (outgoing (removed g u v)) = keys (outgoing g)"
  by (simp add: removed_def keys_del2)

lemma vertices_removed: "vertices (removed g u v) = vertices g"
  by (simp add: removed_def vertices_def map_fst_del2)

lemma Graph_remove_edge_member:
  assumes "consistent g" "u \<in> keys (outgoing g)" "v \<in> keys (outgoing g)"
  shows "Graph_remove_edge g u v =
     (Inr (lookup2 (outgoing (removed g u v)) v u), removed (removed g u v) v u)"
  using assms
  by (simp add: Graph_remove_edge_def Digraph_remove_edge_member consistent_removed keys_removed)

lemma Graph_remove_edge_not_member:
  assumes "u \<notin> keys (outgoing g) \<or> v \<notin> keys (outgoing g)"
  shows "\<exists>err. Graph_remove_edge g u v = (Inl err, g)"
  using Digraph_remove_edge_not_member [OF assms]
  by (auto simp: Graph_remove_edge_def)

lemma consistent_Graph_remove_edge:
  "consistent g \<Longrightarrow> consistent (snd (Graph_remove_edge g u v))"
  using Graph_remove_edge_member [of g u v] Graph_remove_edge_not_member [of u g v]
  by (cases "u \<in> keys (outgoing g) \<and> v \<in> keys (outgoing g)") (auto simp: consistent_removed)

subsection \<open>Removal of a vertex, and the graphs that can be built\<close>

lemma remove_edge_not_member:
  assumes "u \<notin> keys (outgoing g) \<or> v \<notin> keys (outgoing g)"
  shows "\<exists>err. remove_edge c g u v = (Inl err, g)"
  using Digraph_remove_edge_not_member [OF assms] Graph_remove_edge_not_member [OF assms]
  by (cases c) auto

lemma consistent_remove_edge: "consistent g \<Longrightarrow> consistent (snd (remove_edge c g u v))"
  by (cases c) (simp_all add: consistent_Digraph_remove_edge consistent_Graph_remove_edge)

lemma map_fst_removed:
  "map fst (outgoing (removed g u v)) = map fst (outgoing g)"
  "map fst (incoming (removed g u v)) = map fst (incoming g)"
  by (simp_all add: removed_def map_fst_del2)

lemma lookup2_removed:
  "lookup2 (outgoing (removed g u v)) x y = (if x = u \<and> y = v then None else lookup2 (outgoing g) x y)"
  by (simp add: removed_def lookup2_del2)

lemma if_None_cases:
  "(if P then None else if Q then None else (z :: 'a option)) = (if Q \<or> P then None else z)"
  "(if P then None else if Q then None else if Q then None else if P then None else (z :: 'a option))
     = (if P \<or> Q then None else z)"
  by simp_all

lemma lookup2_removed_twice:
  "lookup2 (outgoing (removed (removed g u v) v u)) x y =
     (if (x = u \<and> y = v) \<or> (x = v \<and> y = u) then None else lookup2 (outgoing g) x y)"
  by (simp only: lookup2_removed) (rule if_None_cases)

lemma lookup2_removed_four:
  "lookup2 (outgoing (removed (removed (removed (removed g u v) v u) v u) u v)) x y =
     (if (x = u \<and> y = v) \<or> (x = v \<and> y = u) then None else lookup2 (outgoing g) x y)"
  by (simp only: lookup2_removed) (rule if_None_cases)

text \<open>One round of the loop of \<^verbatim>\<open>remove_vertex\<close>, for either class.\<close>

lemma remove_edge_twice:
  assumes "consistent g" "u \<in> keys (outgoing g)" "v \<in> keys (outgoing g)"
  shows "\<exists>r1 g1 r2 g2. remove_edge c g u v = (Inr r1, g1) \<and> remove_edge c g1 v u = (Inr r2, g2) \<and>
     consistent g2 \<and> map fst (outgoing g2) = map fst (outgoing g) \<and>
     map fst (incoming g2) = map fst (incoming g) \<and>
     (\<forall>x y. lookup2 (outgoing g2) x y =
        (if (x = u \<and> y = v) \<or> (x = v \<and> y = u) then None else lookup2 (outgoing g) x y))"
proof -
  have two: "\<exists>r1 r2. Digraph_remove_edge h u v = (Inr r1, removed h u v) \<and>
      Digraph_remove_edge (removed h u v) v u = (Inr r2, removed (removed h u v) v u)"
    if "consistent h" "u \<in> keys (outgoing h)" "v \<in> keys (outgoing h)" for h u v
    using that by (simp add: Digraph_remove_edge_member consistent_removed keys_removed)
  show ?thesis
  proof (cases c)
    case Digraph_cls
    let ?g1 = "removed g u v"
    let ?g2 = "removed ?g1 v u"
    from two [OF assms] obtain r1 r2 where
      "Digraph_remove_edge g u v = (Inr r1, ?g1)" "Digraph_remove_edge ?g1 v u = (Inr r2, ?g2)"
      by blast
    then have "remove_edge c g u v = (Inr r1, ?g1)" "remove_edge c ?g1 v u = (Inr r2, ?g2)"
      using Digraph_cls by simp_all
    moreover have "consistent ?g2" using assms(1) by (simp add: consistent_removed)
    moreover have "map fst (outgoing ?g2) = map fst (outgoing g)"
      "map fst (incoming ?g2) = map fst (incoming g)"
      by (simp_all add: map_fst_removed)
    moreover have "\<forall>x y. lookup2 (outgoing ?g2) x y =
        (if (x = u \<and> y = v) \<or> (x = v \<and> y = u) then None else lookup2 (outgoing g) x y)"
      by (intro allI) (rule lookup2_removed_twice)
    ultimately show ?thesis by blast
  next
    case Graph_cls
    let ?g1 = "removed (removed g u v) v u"
    let ?g2 = "removed (removed ?g1 v u) u v"
    have c1: "consistent ?g1" using assms(1) by (simp add: consistent_removed)
    have k1: "v \<in> keys (outgoing ?g1)" "u \<in> keys (outgoing ?g1)"
      using assms by (simp_all add: keys_removed)
    from two [OF assms] obtain r1 r2 where
      "Digraph_remove_edge g u v = (Inr r1, removed g u v)"
      "Digraph_remove_edge (removed g u v) v u = (Inr r2, ?g1)"
      by blast
    then have e1: "remove_edge c g u v = (Inr r2, ?g1)"
      using Graph_cls by (simp add: Graph_remove_edge_def)
    from two [OF c1 k1] obtain r3 r4 where
      "Digraph_remove_edge ?g1 v u = (Inr r3, removed ?g1 v u)"
      "Digraph_remove_edge (removed ?g1 v u) u v = (Inr r4, ?g2)"
      by blast
    then have e2: "remove_edge c ?g1 v u = (Inr r4, ?g2)"
      using Graph_cls by (simp add: Graph_remove_edge_def)
    have "consistent ?g2" using c1 by (simp add: consistent_removed)
    moreover have "map fst (outgoing ?g2) = map fst (outgoing g)"
      "map fst (incoming ?g2) = map fst (incoming g)"
      by (simp_all add: map_fst_removed)
    moreover have "\<forall>x y. lookup2 (outgoing ?g2) x y =
        (if (x = u \<and> y = v) \<or> (x = v \<and> y = u) then None else lookup2 (outgoing g) x y)"
      by (intro allI) (rule lookup2_removed_four)
    ultimately show ?thesis using e1 e2 by blast
  qed
qed

lemma remove_vertex_loop_member:
  assumes "consistent g" "set us \<subseteq> keys (outgoing g)" "v \<in> keys (outgoing g)"
  shows "\<exists>g'. remove_vertex_loop c us g v = (Inr (), g') \<and> consistent g' \<and>
     map fst (outgoing g') = map fst (outgoing g) \<and>
     map fst (incoming g') = map fst (incoming g) \<and>
     (\<forall>x y. lookup2 (outgoing g') x y =
        (if (x \<in> set us \<and> y = v) \<or> (x = v \<and> y \<in> set us) then None
         else lookup2 (outgoing g) x y))"
  using assms
proof (induction us arbitrary: g)
  case Nil
  then show ?case by simp
next
  case (Cons u us)
  from Cons.prems have u: "u \<in> keys (outgoing g)" by simp
  from remove_edge_twice [OF Cons.prems(1) u Cons.prems(3), of c]
  obtain r1 g1 r2 g2 where
    s1: "remove_edge c g u v = (Inr r1, g1)" and s2: "remove_edge c g1 v u = (Inr r2, g2)" and
    c2: "consistent g2" and ko: "map fst (outgoing g2) = map fst (outgoing g)" and
    ki: "map fst (incoming g2) = map fst (incoming g)" and
    l2: "\<And>x y. lookup2 (outgoing g2) x y =
        (if (x = u \<and> y = v) \<or> (x = v \<and> y = u) then None else lookup2 (outgoing g) x y)"
    by blast
  have k2: "keys (outgoing g2) = keys (outgoing g)" using ko by (simp add: keys_def)
  from Cons.prems k2 have "set us \<subseteq> keys (outgoing g2)" "v \<in> keys (outgoing g2)" by simp_all
  from Cons.IH [OF c2 this]
  obtain g' where
    r: "remove_vertex_loop c us g2 v = (Inr (), g')" and c': "consistent g'" and
    ko': "map fst (outgoing g') = map fst (outgoing g2)" and
    ki': "map fst (incoming g') = map fst (incoming g2)" and
    l': "\<And>x y. lookup2 (outgoing g') x y =
        (if (x \<in> set us \<and> y = v) \<or> (x = v \<and> y \<in> set us) then None
         else lookup2 (outgoing g2) x y)"
    by blast
  have "remove_vertex_loop c (u # us) g v = (Inr (), g')"
    using s1 s2 r by simp
  moreover have "\<forall>x y. lookup2 (outgoing g') x y =
        (if (x \<in> set (u # us) \<and> y = v) \<or> (x = v \<and> y \<in> set (u # us)) then None
         else lookup2 (outgoing g) x y)"
  proof (intro allI)
    fix x y
    have "(if (x \<in> set us \<and> y = v) \<or> (x = v \<and> y \<in> set us) then None
           else if (x = u \<and> y = v) \<or> (x = v \<and> y = u) then None
           else lookup2 (outgoing g) x y) =
          (if ((x = u \<and> y = v) \<or> (x = v \<and> y = u)) \<or>
              ((x \<in> set us \<and> y = v) \<or> (x = v \<and> y \<in> set us)) then None
           else lookup2 (outgoing g) x y)"
      by (rule if_None_cases)
    moreover have "(((x = u \<and> y = v) \<or> (x = v \<and> y = u)) \<or>
              ((x \<in> set us \<and> y = v) \<or> (x = v \<and> y \<in> set us))) =
          ((x \<in> set (u # us) \<and> y = v) \<or> (x = v \<and> y \<in> set (u # us)))"
      by (simp only: set_simps insert_iff) blast
    ultimately show "lookup2 (outgoing g') x y =
        (if (x \<in> set (u # us) \<and> y = v) \<or> (x = v \<and> y \<in> set (u # us)) then None
         else lookup2 (outgoing g) x y)"
      by (simp only: l' l2)
  qed
  ultimately show ?case
    using c' ko ki ko' ki' by simp
qed

lemma remove_vertex_loop_preserves:
  assumes step: "\<And>g u w. P g \<Longrightarrow> P (snd (remove_edge c g u w))"
  shows "P g \<Longrightarrow> P (snd (remove_vertex_loop c us g v))"
proof (induction us arbitrary: g)
  case Nil
  then show ?case by simp
next
  case (Cons u us)
  obtain r1 g1 where s1: "remove_edge c g u v = (r1, g1)" by (cases "remove_edge c g u v")
  obtain r2 g2 where s2: "remove_edge c g1 v u = (r2, g2)" by (cases "remove_edge c g1 v u")
  have p1: "P g1" using step [OF Cons.prems, of u v] s1 by simp
  have p2: "P g2" using step [OF p1, of v u] s2 by simp
  show ?case
    using s1 s2 p1 p2 Cons.IH [OF p2]
    by (cases r1; cases r2) simp_all
qed

text \<open>The graph after \<^verbatim>\<open>remove_vertex(v)\<close>, for a member \<open>v\<close>.\<close>

lemma remove_vertex_member:
  assumes "consistent g" "v \<in> keys (outgoing g)"
  shows "\<exists>g1. remove_vertex_loop c (vertices g) g v = (Inr (), g1) \<and>
     consistent g1 \<and>
     map fst (outgoing g1) = map fst (outgoing g) \<and>
     map fst (incoming g1) = map fst (incoming g) \<and>
     (\<forall>x. lookup2 (outgoing g1) x v = None \<and> lookup2 (outgoing g1) v x = None) \<and>
     (\<forall>x y. x \<noteq> v \<longrightarrow> y \<noteq> v \<longrightarrow> lookup2 (outgoing g1) x y = lookup2 (outgoing g) x y) \<and>
     remove_vertex c g v =
       (Inr (), g1\<lparr>incoming := AList.delete v (incoming g1),
                   outgoing := AList.delete v (outgoing g1)\<rparr>)"
proof -
  have "set (vertices g) \<subseteq> keys (outgoing g)" by (simp add: vertices_def keys_def)
  from remove_vertex_loop_member [OF assms(1) this assms(2), of c]
  obtain g1 where
    r: "remove_vertex_loop c (vertices g) g v = (Inr (), g1)" and c1: "consistent g1" and
    ko: "map fst (outgoing g1) = map fst (outgoing g)" and
    ki: "map fst (incoming g1) = map fst (incoming g)" and
    l: "\<And>x y. lookup2 (outgoing g1) x y =
        (if (x \<in> set (vertices g) \<and> y = v) \<or> (x = v \<and> y \<in> set (vertices g)) then None
         else lookup2 (outgoing g) x y)"
    by blast
  have vk: "set (vertices g) = keys (outgoing g)" by (simp add: vertices_def keys_def)
  have k1: "keys (outgoing g1) = keys (outgoing g)" using ko by (simp add: keys_def)
  have none: "lookup2 (outgoing g1) x v = None \<and> lookup2 (outgoing g1) v x = None" for x
  proof (cases "x \<in> keys (outgoing g)")
    case True
    then show ?thesis by (simp add: l vk)
  next
    case False
    then have "x \<notin> keys (outgoing g1)" "x \<notin> keys (incoming g1)"
      using k1 consistent_keys [OF c1] by simp_all
    then have "lookup2 (outgoing g1) x v = None" "lookup2 (incoming g1) x v = None"
      by (simp_all add: lookup2_not_key)
    then show ?thesis using consistent_lookup2 [OF c1, of x v] by simp
  qed
  have same: "x \<noteq> v \<Longrightarrow> y \<noteq> v \<Longrightarrow> lookup2 (outgoing g1) x y = lookup2 (outgoing g) x y" for x y
    by (simp add: l)
  have "v \<in> keys (outgoing g1)" "v \<in> keys (incoming g1)"
    using assms(2) k1 consistent_keys [OF c1] by simp_all
  then obtain mo mi where "map_of (outgoing g1) v = Some mo" "map_of (incoming g1) v = Some mi"
    using map_of_None_keys [of "outgoing g1" v] map_of_None_keys [of "incoming g1" v] by auto
  then have "remove_vertex c g v =
       (Inr (), g1\<lparr>incoming := AList.delete v (incoming g1),
                   outgoing := AList.delete v (outgoing g1)\<rparr>)"
    using assms r by (simp add: remove_vertex_def validate_vertex_member pop_def)
  with r c1 ko ki none same show ?thesis by blast
qed

lemma consistent_popped:
  assumes "consistent g1"
    "\<And>x. lookup2 (outgoing g1) x v = None \<and> lookup2 (outgoing g1) v x = None"
  shows "consistent (g1\<lparr>incoming := AList.delete v (incoming g1),
                         outgoing := AList.delete v (outgoing g1)\<rparr>)"
proof -
  have s: "\<And>x y. lookup2 (incoming g1) y x = lookup2 (outgoing g1) x y"
    using assms(1) by (simp add: consistent_lookup2)
  have j: "\<And>x y e'. lookup2 (outgoing g1) x y = Some e' \<Longrightarrow> joins e' x y"
    using assms(1) by (simp add: consistent_def)
  show ?thesis
    unfolding consistent_def
    using assms(1)
    by (auto simp: dict_ok_delete keys_delete lookup2_delete s assms(2) consistent_def dest: j)
qed

lemma remove_vertex_not_member:
  assumes "v \<notin> keys (outgoing g)"
  shows "remove_vertex c g v = (Inl (if isinstance_Vertex v then ValueError else TypeError), g)"
  using assms by (simp add: remove_vertex_def validate_vertex_cases)

lemma consistent_remove_vertex:
  assumes "consistent g"
  shows "consistent (snd (remove_vertex c g v))"
proof (cases "v \<in> keys (outgoing g)")
  case True
  from remove_vertex_member [OF assms True, of c] consistent_popped
  show ?thesis by fastforce
next
  case False
  then show ?thesis using assms by (simp add: remove_vertex_not_member)
qed

lemma consistent_reverse:
  assumes "consistent g"
  shows "consistent (reverse g)"
proof -
  have "joins e u v" if "lookup2 (incoming g) u v = Some e" for u v e
    using that consistent_joins [OF assms, of v u e] consistent_lookup2 [OF assms, of u v]
    by (simp add: joins_commute)
  then show ?thesis
    using assms unfolding consistent_def reverse_def by auto
qed

lemma consistent_insert_vertex: "consistent g \<Longrightarrow> consistent (snd (insert_vertex g v))"
  by (simp add: insert_vertex_eq consistent_add_vertex)

lemma consistent_insert_edge: "consistent g \<Longrightarrow> consistent (snd (insert_edge c g e))"
  by (cases c)
     (simp_all add: Digraph_insert_edge_cases Graph_insert_edge_cases consistent_add_vertex
        consistent_Digraph_inserted consistent_Graph_inserted)

lemma consistent_do_call: "consistent g \<Longrightarrow> consistent (do_call c g x)"
  by (cases x)
     (simp_all add: consistent_insert_vertex consistent_insert_edge consistent_remove_edge
        consistent_remove_vertex consistent_reverse)

lemma consistent_init: "consistent Digraph_init"
  by (simp add: consistent_def Digraph_init_def dict_ok_def keys_def lookup2_def)

lemma build_snoc: "build c (calls @ [x]) = do_call c (build c calls) x"
  by (simp add: build_def)

lemma consistent_build: "consistent (build c calls)"
proof (induction calls rule: rev_induct)
  case Nil
  show ?case by (simp add: build_def consistent_init)
next
  case (snoc x calls)
  then show ?case by (simp add: build_snoc consistent_do_call)
qed

subsection \<open>Queries on a consistent graph\<close>

lemma has_entry_iff:
  "(\<exists>mu. getitem m u = Inr mu \<and> has_key mu v) = (lookup2 m u v \<noteq> None)"
proof (cases "map_of m u")
  case None
  then show ?thesis by (simp add: getitem_def lookup2_def)
next
  case (Some mu)
  then show ?thesis
    using map_of_None_keys [of mu v]
    by (auto simp: getitem_def lookup2_def has_key_keys)
qed

lemma consistent_lookup2_members:
  assumes "consistent g" "lookup2 (outgoing g) u v = Some e"
  shows "u \<in> keys (outgoing g)" "v \<in> keys (outgoing g)"
proof -
  show "u \<in> keys (outgoing g)" using assms(2) by (rule lookup2_keys)
  have "lookup2 (incoming g) v u = Some e"
    using assms by (simp add: consistent_lookup2)
  then have "v \<in> keys (incoming g)" by (rule lookup2_keys)
  then show "v \<in> keys (outgoing g)" using consistent_keys [OF assms(1)] by simp
qed

lemma edge_Some_iff:
  assumes "consistent g"
  shows "(edge g u v = Inr (Some e)) = (lookup2 (outgoing g) u v = Some e)"
proof (cases "u \<in> keys (outgoing g) \<and> v \<in> keys (outgoing g)")
  case True
  then show ?thesis using assms by (simp add: edge_member)
next
  case False
  then obtain err where "edge g u v = Inl err"
    using edge_error [OF assms, of u v] by blast
  moreover have "lookup2 (outgoing g) u v \<noteq> Some e"
    using False consistent_lookup2_members [OF assms, of u v e] by blast
  ultimately show ?thesis by simp
qed

lemma vertices_keys: "set (vertices g) = keys (outgoing g)"
  by (simp add: vertices_def keys_def)

lemma successors_member:
  assumes "consistent g" "v \<in> keys (outgoing g)"
  shows "\<exists>su. map_of (outgoing g) v = Some su \<and> successors g v = Inr su"
  using assms map_of_None_keys [of "outgoing g" v]
  by (auto simp: successors_def validate_vertex_member getitem_def)

lemma predecessors_member:
  assumes "consistent g" "v \<in> keys (outgoing g)"
  shows "\<exists>pv. map_of (incoming g) v = Some pv \<and> predecessors g v = Inr pv"
  using assms map_of_None_keys [of "incoming g" v] consistent_keys [OF assms(1)]
  by (auto simp: predecessors_def validate_vertex_member getitem_def)

lemma query_not_member:
  assumes "isinstance_Vertex v" "v \<notin> keys (outgoing g)"
  shows "successors g v = Inl ValueError" "predecessors g v = Inl ValueError"
    "out_degree g v = Inl ValueError" "in_degree g v = Inl ValueError"
    "outgoing_edges g v = Inl ValueError" "incoming_edges g v = Inl ValueError"
    "contains g v = Inr False" "validate_vertex g v = Inl ValueError"
  using assms
  by (simp_all add: successors_def predecessors_def out_degree_def in_degree_def
      outgoing_edges_def incoming_edges_def validate_vertex_cases contains_cases)

subsection \<open>Removal of an edge\<close>

lemma edge_Inr_members:
  assumes "consistent g" "edge g u v = Inr r"
  shows "u \<in> keys (outgoing g) \<and> v \<in> keys (outgoing g)"
  using assms edge_error [OF assms(1), of u v] by auto

subsection \<open>Reversal\<close>

lemma validate_vertex_reverse:
  "consistent g \<Longrightarrow> validate_vertex (reverse g) v = validate_vertex g v"
  using consistent_keys [of g] by (simp add: validate_vertex_cases reverse_def)

subsection \<open>Insertion of an edge\<close>

lemma if_Some_cases:
  "(if P then Some e else if Q then Some e else (z :: 'a option)) = (if Q \<or> P then Some e else z)"
  by simp

lemma keys_Digraph_inserted:
  "keys (outgoing (Digraph_inserted g e)) = insert (head e) (insert (tail e) (keys (outgoing g)))"
  by (auto simp: Digraph_inserted_def Let_def keys_put2 keys_outgoing_add_vertex)

lemma keys_Graph_inserted:
  "keys (outgoing (Graph_inserted g e)) = insert (head e) (insert (tail e) (keys (outgoing g)))"
  by (auto simp: Graph_inserted_def Let_def keys_put2 keys_outgoing_add_vertex)

lemma lookup2_Digraph_inserted:
  "lookup2 (outgoing (Digraph_inserted g e)) x y =
     (if x = head e \<and> y = tail e then Some e else lookup2 (outgoing g) x y)"
  by (simp add: Digraph_inserted_def Let_def lookup2_put2 keys_outgoing_add_vertex
      lookup2_outgoing_add_vertex)

lemma lookup2_Graph_inserted:
  "lookup2 (outgoing (Graph_inserted g e)) x y =
     (if (x = head e \<and> y = tail e) \<or> (x = tail e \<and> y = head e) then Some e
      else lookup2 (outgoing g) x y)"
proof -
  let ?g2 = "add_vertex (add_vertex g (head e)) (tail e)"
  have m: "(head e \<in> keys (outgoing ?g2)) = True" "(tail e \<in> keys (outgoing ?g2)) = True"
    by (simp_all add: keys_outgoing_add_vertex)
  have o: "outgoing (Graph_inserted g e) =
      put2 (put2 (outgoing ?g2) (head e) (tail e) e) (tail e) (head e) e"
    by (simp add: Graph_inserted_def Let_def)
  have "lookup2 (outgoing (Graph_inserted g e)) x y =
     (if x = tail e \<and> y = head e then Some e
      else if x = head e \<and> y = tail e then Some e else lookup2 (outgoing ?g2) x y)"
    by (simp only: o lookup2_put2 keys_put2 m simp_thms)
  also have "\<dots> = (if (x = head e \<and> y = tail e) \<or> (x = tail e \<and> y = head e) then Some e
      else lookup2 (outgoing ?g2) x y)"
    by (rule if_Some_cases)
  finally show ?thesis
    by (simp only: lookup2_outgoing_add_vertex)
qed

lemma entry_queries:
  assumes "consistent g" "lookup2 (outgoing g) u v = Some e"
  shows "edge g u v = Inr (Some e) \<and>
     (\<exists>su. successors g u = Inr su \<and> has_key su v) \<and>
     (\<exists>pv. predecessors g v = Inr pv \<and> has_key pv u) \<and>
     contains g u = Inr True \<and> contains g v = Inr True"
proof -
  have m: "u \<in> keys (outgoing g)" "v \<in> keys (outgoing g)"
    using consistent_lookup2_members [OF assms] by simp_all
  have i: "lookup2 (incoming g) v u = Some e"
    using assms by (simp add: consistent_lookup2)
  from successors_member [OF assms(1) m(1)] obtain su where
    su: "map_of (outgoing g) u = Some su" "successors g u = Inr su" by blast
  from predecessors_member [OF assms(1) m(2)] obtain pv where
    pv: "map_of (incoming g) v = Some pv" "predecessors g v = Inr pv" by blast
  have "has_key su v"
    using su(1) assms(2) by (auto simp: lookup2_def has_key_keys dest: map_of_Some_keys)
  moreover have "has_key pv u"
    using pv(1) i by (auto simp: lookup2_def has_key_keys dest: map_of_Some_keys)
  moreover have "edge g u v = Inr (Some e)"
    using assms by (simp add: edge_Some_iff)
  moreover have "contains g u = Inr True" "contains g v = Inr True"
    using m consistent_member_Vertex [OF assms(1)] by (simp_all add: contains_cases)
  ultimately show ?thesis using su(2) pv(2) by blast
qed

subsection \<open>Removal of a vertex\<close>

lemma entry_lookup2:
  assumes "dict_ok m" "(u, mu) \<in> set m" "(w, e) \<in> set mu"
  shows "lookup2 m u w = Some e"
proof -
  have "map_of m u = Some mu"
    using assms(1,2) by (simp add: dict_ok_def)
  moreover from this have "distinct (map fst mu)"
    using assms(1) by (rule dict_ok_inner [rotated])
  then have "map_of mu w = Some e" using assms(3) by simp
  ultimately show ?thesis by (simp add: lookup2_def)
qed

lemma consistent_entry_not:
  assumes "consistent g" "v \<notin> keys (outgoing g)"
    "(u, mu) \<in> set (outgoing g) \<or> (u, mu) \<in> set (incoming g)" "(w, e) \<in> set mu"
  shows "u \<noteq> v \<and> w \<noteq> v \<and> head e \<noteq> v \<and> tail e \<noteq> v"
proof -
  have d: "dict_ok (outgoing g)" "dict_ok (incoming g)"
    using assms(1) by (simp_all add: consistent_def)
  have "lookup2 (outgoing g) u w = Some e \<or> lookup2 (outgoing g) w u = Some e"
    using assms(3,4) entry_lookup2 [OF d(1), of u mu w e] entry_lookup2 [OF d(2), of u mu w e]
      consistent_lookup2 [OF assms(1), of u w]
    by auto
  then have "u \<in> keys (outgoing g) \<and> w \<in> keys (outgoing g) \<and> (joins e u w \<or> joins e w u)"
    using consistent_lookup2_members [OF assms(1)] consistent_joins [OF assms(1)]
    by blast
  then show ?thesis
    using assms(2) by (auto simp: joins_def)
qed

subsection \<open>The undirected graph\<close>

lemma setitem_commute:
  "u \<noteq> v \<Longrightarrow> u \<in> keys m \<Longrightarrow> v \<in> keys m \<Longrightarrow>
   setitem (setitem m u x) v y = setitem (setitem m v y) u x"
  by (induction m) (auto simp: setitem_def keys_def)

lemma put2_commute:
  assumes "u \<in> keys m" "v \<in> keys m"
  shows "put2 (put2 m u v e) v u e = put2 (put2 m v u e) u v e"
proof (cases "u = v")
  case True
  then show ?thesis by simp
next
  case False
  obtain mu mv where s: "map_of m u = Some mu" "map_of m v = Some mv"
    using assms map_of_None_keys [of m u] map_of_None_keys [of m v] by auto
  then show ?thesis
    using False assms
    by (simp add: put2_def map_of_setitem setitem_commute)
qed

lemma del2_commute:
  assumes "u \<in> keys m" "v \<in> keys m"
  shows "del2 (del2 m u v) v u = del2 (del2 m v u) u v"
proof (cases "u = v")
  case True
  then show ?thesis by simp
next
  case False
  obtain mu mv where s: "map_of m u = Some mu" "map_of m v = Some mv"
    using assms map_of_None_keys [of m u] map_of_None_keys [of m v] by auto
  then show ?thesis
    using False assms
    by (simp add: del2_def map_of_setitem setitem_commute)
qed

lemma mirrored_add_vertex:
  "mirrored g \<Longrightarrow> isinstance_Vertex v \<Longrightarrow> mirrored (add_vertex g v)"
  by (simp add: mirrored_def consistent_add_vertex) (simp add: add_vertex_def)

lemma mirrored_Graph_inserted:
  assumes "mirrored g" "isinstance_Vertex (head e)" "isinstance_Vertex (tail e)"
  shows "mirrored (Graph_inserted g e)"
proof -
  let ?g2 = "add_vertex (add_vertex g (head e)) (tail e)"
  have "mirrored ?g2" using assms by (simp add: mirrored_add_vertex)
  then have eq: "incoming ?g2 = outgoing ?g2" by (simp add: mirrored_def)
  have m: "head e \<in> keys (outgoing ?g2)" "tail e \<in> keys (outgoing ?g2)"
    by (simp_all add: keys_outgoing_add_vertex)
  have "incoming (Graph_inserted g e) = outgoing (Graph_inserted g e)"
    using put2_commute [OF m, of e] by (simp add: Graph_inserted_def Let_def eq)
  moreover have "consistent (Graph_inserted g e)"
    using assms by (simp add: mirrored_def consistent_Graph_inserted)
  ultimately show ?thesis by (simp add: mirrored_def)
qed

lemma mirrored_Graph_insert_edge:
  assumes "mirrored g"
  shows "mirrored (snd (Graph_insert_edge g e))"
proof -
  have "consistent g" using assms by (simp add: mirrored_def)
  then show ?thesis
    using assms
    by (simp add: Graph_insert_edge_cases mirrored_add_vertex mirrored_Graph_inserted)
qed

lemma mirrored_Graph_remove_edge:
  assumes "mirrored g"
  shows "mirrored (snd (Graph_remove_edge g u v))"
proof (cases "u \<in> keys (outgoing g) \<and> v \<in> keys (outgoing g)")
  case True
  have c: "consistent g" and eq: "incoming g = outgoing g"
    using assms by (simp_all add: mirrored_def)
  have "incoming (removed (removed g u v) v u) = outgoing (removed (removed g u v) v u)"
    using True del2_commute [of u "outgoing g" v] by (simp add: removed_def eq)
  moreover have "consistent (removed (removed g u v) v u)"
    using c by (simp add: consistent_removed)
  ultimately show ?thesis
    using True c by (simp add: Graph_remove_edge_member mirrored_def)
next
  case False
  then obtain err where "Graph_remove_edge g u v = (Inl err, g)"
    using Graph_remove_edge_not_member [of u g v] by blast
  then show ?thesis using assms by simp
qed

lemma mirrored_remove_vertex:
  assumes "mirrored g"
  shows "mirrored (snd (remove_vertex Graph_cls g v))"
proof (cases "v \<in> keys (outgoing g)")
  case True
  have c: "consistent g" using assms by (simp add: mirrored_def)
  from remove_vertex_member [OF c True, of Graph_cls]
  obtain g1 where
    loop: "remove_vertex_loop Graph_cls (vertices g) g v = (Inr (), g1)" and
    c1: "consistent g1" and
    none: "\<And>x. lookup2 (outgoing g1) x v = None \<and> lookup2 (outgoing g1) v x = None" and
    rv: "remove_vertex Graph_cls g v =
       (Inr (), g1\<lparr>incoming := AList.delete v (incoming g1),
                   outgoing := AList.delete v (outgoing g1)\<rparr>)"
    by blast
  have "mirrored (snd (remove_vertex_loop Graph_cls (vertices g) g v))"
    using assms
    by (rule remove_vertex_loop_preserves [rotated]) (simp add: mirrored_Graph_remove_edge)
  then have eq: "incoming g1 = outgoing g1" using loop by (simp add: mirrored_def)
  have "consistent (g1\<lparr>incoming := AList.delete v (incoming g1),
                       outgoing := AList.delete v (outgoing g1)\<rparr>)"
    using c1 none by (rule consistent_popped)
  then show ?thesis using rv eq by (simp add: mirrored_def)
next
  case False
  then show ?thesis using assms by (simp add: remove_vertex_not_member)
qed

lemma mirrored_reverse: "mirrored g \<Longrightarrow> reverse g = g"
  by (simp add: mirrored_def reverse_def)

lemma mirrored_do_call: "mirrored g \<Longrightarrow> mirrored (do_call Graph_cls g x)"
proof (cases x)
  case (Insert_vertex v)
  assume "mirrored g"
  then show ?thesis
    using Insert_vertex by (simp add: insert_vertex_eq mirrored_add_vertex)
next
  case (Insert_edge e)
  assume "mirrored g"
  then show ?thesis using Insert_edge by (simp add: mirrored_Graph_insert_edge)
next
  case (Remove_edge u v)
  assume "mirrored g"
  then show ?thesis using Remove_edge by (simp add: mirrored_Graph_remove_edge)
next
  case (Remove_vertex v)
  assume "mirrored g"
  then show ?thesis using Remove_vertex by (simp add: mirrored_remove_vertex)
next
  case Reverse
  assume "mirrored g"
  then show ?thesis using Reverse by (simp add: mirrored_reverse)
qed

lemma mirrored_build: "mirrored (build Graph_cls calls)"
proof (induction calls rule: rev_induct)
  case Nil
  show ?case by (simp add: build_def mirrored_def consistent_init) (simp add: Digraph_init_def)
next
  case (snoc x calls)
  then show ?case by (simp add: build_snoc mirrored_do_call)
qed

lemma mirrored_symmetric:
  "mirrored g \<Longrightarrow> lookup2 (outgoing g) v u = lookup2 (outgoing g) u v"
  using consistent_lookup2 [of g v u] by (simp add: mirrored_def)

subsection \<open>Counting edges\<close>

lemma edge_count_entries:
  assumes "distinct (map fst (outgoing g))"
  shows "edge_count g = entries (outgoing g)"
proof -
  have "len_at (outgoing g) =
      (\<lambda>v. case map_of (outgoing g) v of Some mv \<Rightarrow> length mv | None \<Rightarrow> 0)"
    by (rule ext) (simp add: len_at_def)
  then have "edge_count g = sum_list (map (len_at (outgoing g)) (map fst (outgoing g)))"
    by (simp only: edge_count_def)
  also have "\<dots> = sum (len_at (outgoing g)) (set (map fst (outgoing g)))"
    using assms by (rule sum_list_distinct_conv_sum_set)
  finally show ?thesis by (simp add: entries_def keys_def)
qed

lemma finite_keys: "finite (keys m)"
  by (simp add: keys_def)

lemma entries_setitem_new:
  assumes "v \<notin> keys m"
  shows "entries (setitem m v []) = entries m"
proof -
  have "len_at (setitem m v []) x = len_at m x" if "x \<in> keys m" for x
    using that assms by (auto simp: len_at_def map_of_setitem)
  moreover have "len_at (setitem m v []) v = 0"
    by (simp add: len_at_def map_of_setitem)
  ultimately show ?thesis
    using assms by (simp add: entries_def keys_setitem finite_keys)
qed

lemma len_at_put2:
  "len_at (put2 m u v e) x =
     len_at m x + (if x = u \<and> u \<in> keys m \<and> lookup2 m u v = None then 1 else 0)"
proof (cases "map_of m u")
  case None
  then show ?thesis
    using map_of_None_keys [of m u] by (simp add: put2_def)
next
  case (Some mu)
  then have "u \<in> keys m" by (rule map_of_Some_keys)
  then show ?thesis
    using Some map_of_None_keys [of mu v]
    by (auto simp: put2_def len_at_def map_of_setitem length_setitem lookup2_def)
qed

lemma entries_put2:
  assumes "u \<in> keys m"
  shows "entries (put2 m u v e) = entries m + (if lookup2 m u v = None then 1 else 0)"
proof -
  have "entries (put2 m u v e) =
      (\<Sum>x\<in>keys m. len_at m x + (if x = u \<and> lookup2 m u v = None then 1 else 0))"
    using assms by (simp add: entries_def keys_put2 len_at_put2 cong: if_cong)
  also have "\<dots> = entries m + (\<Sum>x\<in>keys m. if x = u \<and> lookup2 m u v = None then 1 else 0)"
    by (simp add: entries_def sum.distrib)
  also have "(\<Sum>x\<in>keys m. if x = u \<and> lookup2 m u v = None then 1 else 0) =
      (if lookup2 m u v = None then 1 else (0::nat))"
    using assms by (cases "lookup2 m u v = None") (simp_all add: finite_keys)
  finally show ?thesis .
qed

lemma entries_add_vertex: "entries (outgoing (add_vertex g v)) = entries (outgoing g)"
  by (simp add: add_vertex_def entries_setitem_new)

subsection \<open>The set of edges\<close>

lemma set_add_subset: "set (set_add s e) \<subseteq> insert e (set s)"
  by (auto simp: set_add_def)

lemma set_add_mono: "set s \<subseteq> set (set_add s e)"
  by (auto simp: set_add_def)

lemma Edge_eq_refl: "Edge_eq e e"
  by (simp add: Edge_eq_def)

lemma distinct_set_add: "distinct s \<Longrightarrow> distinct (set_add s e)"
  using Edge_eq_refl [of e] by (auto simp: set_add_def)

lemma set_foldl_set_add_subset: "set (foldl set_add s xs) \<subseteq> set s \<union> set xs"
proof (induction xs arbitrary: s)
  case Nil
  show ?case by simp
next
  case (Cons x xs)
  have "set (foldl set_add (set_add s x) xs) \<subseteq> set (set_add s x) \<union> set xs"
    by (rule Cons.IH)
  then show ?case using set_add_subset [of s x] by auto
qed

lemma distinct_foldl_set_add: "distinct s \<Longrightarrow> distinct (foldl set_add s xs)"
  by (induction xs arbitrary: s) (simp_all add: distinct_set_add)

lemma set_foldl_set_add_unique:
  assumes "\<forall>x \<in> set s \<union> set xs. \<forall>y \<in> set s \<union> set xs. Edge_eq x y \<longrightarrow> x = y"
  shows "set (foldl set_add s xs) = set s \<union> set xs"
  using assms
proof (induction xs arbitrary: s)
  case Nil
  show ?case by simp
next
  case (Cons x xs)
  have a: "set (set_add s x) = insert x (set s)"
  proof (cases "\<exists>y \<in> set s. Edge_eq y x")
    case True
    then obtain y where "y \<in> set s" "Edge_eq y x" by blast
    with Cons.prems have "y = x" by simp
    with \<open>y \<in> set s\<close> True show ?thesis by (auto simp: set_add_def)
  next
    case False
    then show ?thesis by (simp add: set_add_def)
  qed
  have "set (foldl set_add (set_add s x) xs) = set (set_add s x) \<union> set xs"
    using Cons.prems by (intro Cons.IH) (simp add: a)
  then show ?case by (simp add: a)
qed

lemma edges_values2: "edges g = foldl set_add [] (values2 (outgoing g))"
proof -
  have "foldl (\<lambda>result secondary_map. set_update result (map snd secondary_map)) s ms
      = foldl set_add s (concat (map (\<lambda>mu. map snd mu) ms))" for s and ms :: "(obj \<times> 'a Edge) list list"
    by (induction ms arbitrary: s) (simp_all add: set_update_def)
  then show ?thesis by (simp add: edges_def values2_def)
qed

lemma stored_values2: "stored m = set (values2 m)"
  by (simp add: stored_def values2_def)

lemma edges_subset_stored: "set (edges g) \<subseteq> stored (outgoing g)"
  using set_foldl_set_add_subset [of "[]" "values2 (outgoing g)"]
  by (simp add: edges_values2 stored_values2)

lemma distinct_edges: "distinct (edges g)"
  by (simp add: edges_values2 distinct_foldl_set_add)

lemma edges_unique:
  assumes "\<forall>x \<in> stored (outgoing g). \<forall>y \<in> stored (outgoing g). Edge_eq x y \<longrightarrow> x = y"
  shows "set (edges g) = stored (outgoing g)"
  using assms set_foldl_set_add_unique [of "[]" "values2 (outgoing g)"]
  by (simp add: edges_values2 stored_values2)

lemma stored_lookup2:
  assumes "dict_ok m"
  shows "(e \<in> stored m) = (\<exists>u v. lookup2 m u v = Some e)"
proof
  assume "e \<in> stored m"
  then obtain u mu w where "(u, mu) \<in> set m" "(w, e) \<in> set mu"
    by (auto simp: stored_def)
  then have "lookup2 m u w = Some e" using assms by (intro entry_lookup2)
  then show "\<exists>u v. lookup2 m u v = Some e" by blast
next
  assume "\<exists>u v. lookup2 m u v = Some e"
  then obtain u v mu where "map_of m u = Some mu" "map_of mu v = Some e"
    by (auto simp: lookup2_def split: option.splits)
  then have "(u, mu) \<in> set m" "(v, e) \<in> set mu"
    by (auto dest: map_of_SomeD)
  then show "e \<in> stored m" by (force simp: stored_def)
qed

subsection \<open>Edges of the undirected graph\<close>

lemma mirrored_unique:
  assumes "mirrored g"
  shows "\<forall>x \<in> stored (outgoing g). \<forall>y \<in> stored (outgoing g). Edge_eq x y \<longrightarrow> x = y"
proof (intro ballI impI)
  fix x y
  assume x: "x \<in> stored (outgoing g)" and y: "y \<in> stored (outgoing g)" and eq: "Edge_eq x y"
  have c: "consistent g" using assms by (simp add: mirrored_def)
  then have d: "dict_ok (outgoing g)" by (simp add: consistent_def)
  from x obtain a b where xa: "lookup2 (outgoing g) a b = Some x"
    using stored_lookup2 [OF d] by blast
  from y obtain p q where yp: "lookup2 (outgoing g) p q = Some y"
    using stored_lookup2 [OF d] by blast
  have jx: "joins x a b" using c xa by (rule consistent_joins)
  have jy: "joins y p q" using c yp by (rule consistent_joins)
  have xb: "lookup2 (outgoing g) b a = Some x"
    using xa mirrored_symmetric [OF assms, of b a] by simp
  have "(p = a \<and> q = b) \<or> (p = b \<and> q = a)"
    using jx jy eq unfolding joins_def Edge_eq_def by metis
  then show "x = y" using xa xb yp by auto
qed

lemma if_Some_eq_iff:
  "((if P then Some e else z) = Some x) = ((P \<and> e = x) \<or> (\<not> P \<and> z = Some x))"
  by (cases P) simp_all

lemma not_adjacent_lookup2:
  assumes "consistent g" "\<forall>x. edge g u v \<noteq> Inr (Some x)"
  shows "lookup2 (outgoing g) u v = None"
proof (cases "lookup2 (outgoing g) u v")
  case None
  then show ?thesis .
next
  case (Some x)
  then have "edge g u v = Inr (Some x)" using assms(1) by (simp add: edge_Some_iff)
  with assms(2) show ?thesis by blast
qed

subsection \<open>A second edge between the same vertices\<close>

lemma length_put2: "length (put2 m u v e) = length m"
  using map_fst_put2 [of m u v e] length_map [of fst "put2 m u v e"] length_map [of fst m]
  by simp

lemma add_vertex_member: "v \<in> keys (outgoing g) \<Longrightarrow> add_vertex g v = g"
  by (simp add: add_vertex_def)

lemma alignedD: "aligned m \<Longrightarrow> lookup2 m u v = Some e \<Longrightarrow> head e = u \<and> tail e = v"
  by (simp add: aligned_def)

lemma aligned_do_call:
  assumes "consistent g" "aligned (outgoing g)" "x \<noteq> Reverse"
  shows "aligned (outgoing (do_call Digraph_cls g x))"
proof (cases x)
  case (Insert_vertex v)
  then show ?thesis
    using assms(2) by (simp add: insert_vertex_eq aligned_def lookup2_outgoing_add_vertex)
next
  case (Insert_edge e)
  have "aligned (outgoing (Digraph_inserted g e))"
    unfolding aligned_def lookup2_Digraph_inserted if_Some_eq_iff
    using alignedD [OF assms(2)] by blast
  moreover have "aligned (outgoing (add_vertex g (head e)))"
    using assms(2) by (simp add: aligned_def lookup2_outgoing_add_vertex)
  ultimately show ?thesis
    using Insert_edge assms(1,2) by (simp add: Digraph_insert_edge_cases)
next
  case (Remove_edge u v)
  show ?thesis
  proof (cases "u \<in> keys (outgoing g) \<and> v \<in> keys (outgoing g)")
    case True
    have "aligned (outgoing (removed g u v))"
      unfolding aligned_def lookup2_removed
      using alignedD [OF assms(2)] by (auto split: if_splits)
    then show ?thesis
      using Remove_edge True assms(1) by (simp add: Digraph_remove_edge_member)
  next
    case False
    then obtain err where "Digraph_remove_edge g u v = (Inl err, g)"
      using Digraph_remove_edge_not_member [of u g v] by blast
    then show ?thesis using Remove_edge assms(2) by simp
  qed
next
  case (Remove_vertex v)
  show ?thesis
  proof (cases "v \<in> keys (outgoing g)")
    case True
    from remove_vertex_member [OF assms(1) True, of Digraph_cls]
    obtain g1 where
      none: "\<And>x. lookup2 (outgoing g1) x v = None \<and> lookup2 (outgoing g1) v x = None" and
      same: "\<And>x y. x \<noteq> v \<Longrightarrow> y \<noteq> v \<Longrightarrow> lookup2 (outgoing g1) x y = lookup2 (outgoing g) x y" and
      rv: "remove_vertex Digraph_cls g v =
         (Inr (), g1\<lparr>incoming := AList.delete v (incoming g1),
                     outgoing := AList.delete v (outgoing g1)\<rparr>)"
      by blast
    have "head e = x \<and> tail e = y"
      if "lookup2 (AList.delete v (outgoing g1)) x y = Some e" for x y e
    proof -
      from that have xv: "x \<noteq> v" and l: "lookup2 (outgoing g1) x y = Some e"
        by (simp_all add: lookup2_delete split: if_splits)
      from l none [of x] have "y \<noteq> v" by auto
      with xv l same have "lookup2 (outgoing g) x y = Some e" by simp
      then show ?thesis using assms(2) by (rule alignedD [rotated])
    qed
    then show ?thesis
      using Remove_vertex rv by (simp add: aligned_def)
  next
    case False
    then show ?thesis
      using Remove_vertex assms(2) by (simp add: remove_vertex_not_member)
  qed
next
  case Reverse
  with assms(3) show ?thesis by simp
qed

lemma aligned_build:
  "Reverse \<notin> set calls \<Longrightarrow> aligned (outgoing (build Digraph_cls calls))"
proof (induction calls rule: rev_induct)
  case Nil
  show ?case by (simp add: build_def Digraph_init_def aligned_def lookup2_def)
next
  case (snoc x calls)
  then have "aligned (outgoing (build Digraph_cls calls))" "x \<noteq> Reverse" by auto
  then show ?case
    using consistent_build [of Digraph_cls calls] by (simp add: build_snoc aligned_do_call)
qed

section \<open>The properties of the specification\<close>

subsection \<open>Insertion of an edge\<close>

text \<open>
  Claim C1. On a graph of either class built by calls of the public methods, and for an edge
  \<open>e\<close> whose endpoints \<open>u\<close>, \<open>v\<close> are objects of class \<^verbatim>\<open>Vertex\<close>: \<^verbatim>\<open>insert_edge(e)\<close> returns
  \<open>e\<close>; afterwards \<^verbatim>\<open>edge(u, v)\<close> returns \<open>e\<close>, \<open>v\<close> is a key of \<^verbatim>\<open>successors(u)\<close>, \<open>u\<close> is a key
  of \<^verbatim>\<open>predecessors(v)\<close>, and the vertices of the graph are those it had and the two
  endpoints.
\<close>

theorem insert_edge_postcondition:
  assumes "isinstance_Vertex (head e)" "isinstance_Vertex (tail e)"
  shows "\<exists>g'. insert_edge c (build c calls) e = (Inr e, g') \<and>
     edge g' (head e) (tail e) = Inr (Some e) \<and>
     (\<exists>su. successors g' (head e) = Inr su \<and> has_key su (tail e)) \<and>
     (\<exists>pv. predecessors g' (tail e) = Inr pv \<and> has_key pv (head e)) \<and>
     contains g' (head e) = Inr True \<and> contains g' (tail e) = Inr True \<and>
     set (vertices g') = insert (head e) (insert (tail e) (set (vertices (build c calls))))"
proof -
  let ?g = "build c calls"
  have c: "consistent ?g" by (rule consistent_build)
  obtain g' where g': "insert_edge c ?g e = (Inr e, g')" "consistent g'"
    "lookup2 (outgoing g') (head e) (tail e) = Some e"
    "keys (outgoing g') = insert (head e) (insert (tail e) (keys (outgoing ?g)))"
  proof (cases c)
    case Digraph_cls
    show ?thesis
    proof (rule that [of "Digraph_inserted ?g e"])
      show "insert_edge c ?g e = (Inr e, Digraph_inserted ?g e)"
        using Digraph_cls assms c by (simp add: Digraph_insert_edge_cases)
      show "consistent (Digraph_inserted ?g e)"
        using c assms by (rule consistent_Digraph_inserted)
      show "lookup2 (outgoing (Digraph_inserted ?g e)) (head e) (tail e) = Some e"
        by (simp add: lookup2_Digraph_inserted)
      show "keys (outgoing (Digraph_inserted ?g e))
          = insert (head e) (insert (tail e) (keys (outgoing ?g)))"
        by (rule keys_Digraph_inserted)
    qed
  next
    case Graph_cls
    show ?thesis
    proof (rule that [of "Graph_inserted ?g e"])
      show "insert_edge c ?g e = (Inr e, Graph_inserted ?g e)"
        using Graph_cls assms c by (simp add: Graph_insert_edge_cases)
      show "consistent (Graph_inserted ?g e)"
        using c assms by (rule consistent_Graph_inserted)
      show "lookup2 (outgoing (Graph_inserted ?g e)) (head e) (tail e) = Some e"
        by (simp only: lookup2_Graph_inserted simp_thms if_True)
      show "keys (outgoing (Graph_inserted ?g e))
          = insert (head e) (insert (tail e) (keys (outgoing ?g)))"
        by (rule keys_Graph_inserted)
    qed
  qed
  from entry_queries [OF g'(2,3)] g'(1,4) show ?thesis
    by (simp only: vertices_keys) blast
qed

theorem insert_edge_postcondition_witness:
  "isinstance_Vertex (head (Edge_init 7 bfs_d (Vertex 4) ''DE'')) \<and>
   isinstance_Vertex (tail (Edge_init 7 bfs_d (Vertex 4) ''DE'')) \<and>
   (\<exists>g'. insert_edge Graph_cls (build Graph_cls bfs_calls) (Edge_init 7 bfs_d (Vertex 4) ''DE'')
        = (Inr (Edge_init 7 bfs_d (Vertex 4) ''DE''), g') \<and>
     edge g' (head (Edge_init 7 bfs_d (Vertex 4) ''DE'')) (tail (Edge_init 7 bfs_d (Vertex 4) ''DE''))
        = Inr (Some (Edge_init 7 bfs_d (Vertex 4) ''DE'')) \<and>
     (\<exists>su. successors g' (head (Edge_init 7 bfs_d (Vertex 4) ''DE'')) = Inr su \<and>
        has_key su (tail (Edge_init 7 bfs_d (Vertex 4) ''DE''))) \<and>
     (\<exists>pv. predecessors g' (tail (Edge_init 7 bfs_d (Vertex 4) ''DE'')) = Inr pv \<and>
        has_key pv (head (Edge_init 7 bfs_d (Vertex 4) ''DE''))) \<and>
     contains g' (head (Edge_init 7 bfs_d (Vertex 4) ''DE'')) = Inr True \<and>
     contains g' (tail (Edge_init 7 bfs_d (Vertex 4) ''DE'')) = Inr True \<and>
     set (vertices g') = insert (head (Edge_init 7 bfs_d (Vertex 4) ''DE''))
       (insert (tail (Edge_init 7 bfs_d (Vertex 4) ''DE''))
          (set (vertices (build Graph_cls bfs_calls)))))"
proof -
  have h: "isinstance_Vertex (head (Edge_init 7 bfs_d (Vertex 4) ''DE''))"
    "isinstance_Vertex (tail (Edge_init 7 bfs_d (Vertex 4) ''DE''))"
    by code_simp+
  from h insert_edge_postcondition [OF h, of Graph_cls bfs_calls] show ?thesis
    by (intro conjI)
qed

subsection \<open>Symmetry of the undirected graph\<close>

text \<open>
  Claim C2. In every graph built from the empty \<^verbatim>\<open>Graph\<close> by calls of the public methods:
  when \<^verbatim>\<open>edge(u, v)\<close> is an edge, \<^verbatim>\<open>edge(v, u)\<close> is the same edge object, so with the same
  tag and distance; \<^verbatim>\<open>insert_edge\<close> of an edge between two objects of class \<^verbatim>\<open>Vertex\<close> makes
  it the entry in both directions; \<^verbatim>\<open>remove_edge(u, v)\<close> on two vertices of the graph leaves
  no entry in either direction.
\<close>

theorem undirected_symmetry:
  "(let g = build Graph_cls calls in
      (\<forall>e. edge g u v = Inr (Some e) \<longrightarrow> edge g v u = Inr (Some e)) \<and>
      (\<forall>e. isinstance_Vertex (head e) \<and> isinstance_Vertex (tail e) \<longrightarrow>
         (\<exists>g'. Graph_insert_edge g e = (Inr e, g') \<and>
            edge g' (head e) (tail e) = Inr (Some e) \<and>
            edge g' (tail e) (head e) = Inr (Some e))) \<and>
      (u \<in> set (vertices g) \<and> v \<in> set (vertices g) \<longrightarrow>
         (\<exists>r g'. Graph_remove_edge g u v = (Inr r, g') \<and>
            edge g' u v = Inr None \<and> edge g' v u = Inr None \<and>
            vertices g' = vertices g)))"
proof -
  let ?g = "build Graph_cls calls"
  have m: "mirrored ?g" by (rule mirrored_build)
  have c: "consistent ?g" by (rule consistent_build)
  have p1: "\<forall>e. edge ?g u v = Inr (Some e) \<longrightarrow> edge ?g v u = Inr (Some e)"
    by (simp add: edge_Some_iff [OF c] mirrored_symmetric [OF m, of v u])
  have p2: "\<forall>e. isinstance_Vertex (head e) \<and> isinstance_Vertex (tail e) \<longrightarrow>
         (\<exists>g'. Graph_insert_edge ?g e = (Inr e, g') \<and>
            edge g' (head e) (tail e) = Inr (Some e) \<and>
            edge g' (tail e) (head e) = Inr (Some e))"
  proof (intro allI impI)
    fix e :: "'a Edge"
    assume v: "isinstance_Vertex (head e) \<and> isinstance_Vertex (tail e)"
    let ?g' = "Graph_inserted ?g e"
    have c': "consistent ?g'" using c v by (simp add: consistent_Graph_inserted)
    have "Graph_insert_edge ?g e = (Inr e, ?g')"
      using c v by (simp add: Graph_insert_edge_cases)
    moreover have "edge ?g' (head e) (tail e) = Inr (Some e)"
      by (simp only: edge_Some_iff [OF c'] lookup2_Graph_inserted simp_thms if_True)
    moreover have "edge ?g' (tail e) (head e) = Inr (Some e)"
      by (simp only: edge_Some_iff [OF c'] lookup2_Graph_inserted simp_thms if_True)
    ultimately show "\<exists>g'. Graph_insert_edge ?g e = (Inr e, g') \<and>
            edge g' (head e) (tail e) = Inr (Some e) \<and>
            edge g' (tail e) (head e) = Inr (Some e)"
      by blast
  qed
  have p3: "u \<in> set (vertices ?g) \<and> v \<in> set (vertices ?g) \<longrightarrow>
         (\<exists>r g'. Graph_remove_edge ?g u v = (Inr r, g') \<and>
            edge g' u v = Inr None \<and> edge g' v u = Inr None \<and>
            vertices g' = vertices ?g)"
  proof
    assume "u \<in> set (vertices ?g) \<and> v \<in> set (vertices ?g)"
    then have k: "u \<in> keys (outgoing ?g)" "v \<in> keys (outgoing ?g)"
      by (simp_all add: vertices_keys)
    let ?g' = "removed (removed ?g u v) v u"
    have c': "consistent ?g'" using c by (simp add: consistent_removed)
    have k': "u \<in> keys (outgoing ?g')" "v \<in> keys (outgoing ?g')"
      using k by (simp_all add: keys_removed)
    have "Graph_remove_edge ?g u v = (Inr (lookup2 (outgoing (removed ?g u v)) v u), ?g')"
      using c k by (rule Graph_remove_edge_member)
    moreover have "edge ?g' u v = Inr None"
      by (simp only: edge_member [OF c' k'] lookup2_removed_twice simp_thms if_True)
    moreover have "edge ?g' v u = Inr None"
      by (simp only: edge_member [OF c' k'(2,1)] lookup2_removed_twice simp_thms if_True)
    moreover have "vertices ?g' = vertices ?g" by (simp add: vertices_removed)
    ultimately show "\<exists>r g'. Graph_remove_edge ?g u v = (Inr r, g') \<and>
            edge g' u v = Inr None \<and> edge g' v u = Inr None \<and>
            vertices g' = vertices ?g"
      by blast
  qed
  from p1 p2 p3 show ?thesis by (simp only: Let_def)
qed

theorem undirected_symmetry_witness:
  "edge (build Graph_cls bfs_calls) bfs_a bfs_d = Inr (Some (Edge_init 4 bfs_a bfs_d ''AD'')) \<and>
   edge (build Graph_cls bfs_calls) bfs_d bfs_a = Inr (Some (Edge_init 4 bfs_a bfs_d ''AD'')) \<and>
   isinstance_Vertex (head (Edge_init 7 bfs_d (Vertex 4) ''DE'')) \<and>
   isinstance_Vertex (tail (Edge_init 7 bfs_d (Vertex 4) ''DE'')) \<and>
   (\<exists>g'. Graph_insert_edge (build Graph_cls bfs_calls) (Edge_init 7 bfs_d (Vertex 4) ''DE'')
          = (Inr (Edge_init 7 bfs_d (Vertex 4) ''DE''), g') \<and>
      edge g' (head (Edge_init 7 bfs_d (Vertex 4) ''DE'')) (tail (Edge_init 7 bfs_d (Vertex 4) ''DE''))
          = Inr (Some (Edge_init 7 bfs_d (Vertex 4) ''DE'')) \<and>
      edge g' (tail (Edge_init 7 bfs_d (Vertex 4) ''DE'')) (head (Edge_init 7 bfs_d (Vertex 4) ''DE''))
          = Inr (Some (Edge_init 7 bfs_d (Vertex 4) ''DE''))) \<and>
   bfs_a \<in> set (vertices (build Graph_cls bfs_calls)) \<and>
   bfs_d \<in> set (vertices (build Graph_cls bfs_calls)) \<and>
   (\<exists>r g'. Graph_remove_edge (build Graph_cls bfs_calls) bfs_a bfs_d = (Inr r, g') \<and>
      edge g' bfs_a bfs_d = Inr None \<and> edge g' bfs_d bfs_a = Inr None \<and>
      vertices g' = vertices (build Graph_cls bfs_calls))"
proof -
  have h1: "edge (build Graph_cls bfs_calls) bfs_a bfs_d
      = Inr (Some (Edge_init 4 bfs_a bfs_d ''AD''))"
    by code_simp
  have h2: "isinstance_Vertex (head (Edge_init 7 bfs_d (Vertex 4) ''DE''))"
    "isinstance_Vertex (tail (Edge_init 7 bfs_d (Vertex 4) ''DE''))"
    by code_simp+
  have h3: "bfs_a \<in> set (vertices (build Graph_cls bfs_calls))"
    "bfs_d \<in> set (vertices (build Graph_cls bfs_calls))"
    by code_simp+
  note t = undirected_symmetry [of bfs_calls bfs_a bfs_d, unfolded Let_def]
  from t h1 have "edge (build Graph_cls bfs_calls) bfs_d bfs_a
      = Inr (Some (Edge_init 4 bfs_a bfs_d ''AD''))"
    by blast
  moreover from t h2 have "\<exists>g'. Graph_insert_edge (build Graph_cls bfs_calls) (Edge_init 7 bfs_d (Vertex 4) ''DE'')
          = (Inr (Edge_init 7 bfs_d (Vertex 4) ''DE''), g') \<and>
      edge g' (head (Edge_init 7 bfs_d (Vertex 4) ''DE'')) (tail (Edge_init 7 bfs_d (Vertex 4) ''DE''))
          = Inr (Some (Edge_init 7 bfs_d (Vertex 4) ''DE'')) \<and>
      edge g' (tail (Edge_init 7 bfs_d (Vertex 4) ''DE'')) (head (Edge_init 7 bfs_d (Vertex 4) ''DE''))
          = Inr (Some (Edge_init 7 bfs_d (Vertex 4) ''DE''))"
    by blast
  moreover from t h3 have "\<exists>r g'. Graph_remove_edge (build Graph_cls bfs_calls) bfs_a bfs_d = (Inr r, g') \<and>
      edge g' bfs_a bfs_d = Inr None \<and> edge g' bfs_d bfs_a = Inr None \<and>
      vertices g' = vertices (build Graph_cls bfs_calls)"
    by blast
  ultimately show ?thesis using h1 h2 h3 by (intro conjI)
qed

subsection \<open>The invariant of the adjacency maps\<close>

text \<open>
  Claim C3. In every graph built from the empty \<^verbatim>\<open>Digraph\<close> by calls of \<^verbatim>\<open>insert_vertex\<close>,
  \<^verbatim>\<open>insert_edge\<close>, \<^verbatim>\<open>remove_edge\<close>, \<^verbatim>\<open>remove_vertex\<close> and \<^verbatim>\<open>reverse\<close>, the outgoing and the
  incoming map have the same keys, the vertices of the graph; \<open>v\<close> is a key of
  \<^verbatim>\<open>outgoing[u]\<close> exactly when \<open>u\<close> is a key of \<^verbatim>\<open>incoming[v]\<close>, and exactly when
  \<^verbatim>\<open>edge(u, v)\<close> returns an edge.
\<close>

theorem adjacency_invariant:
  "(let g = build Digraph_cls calls in
      keys (outgoing g) = keys (incoming g) \<and>
      set (vertices g) = keys (outgoing g) \<and>
      ((\<exists>mu. getitem (outgoing g) u = Inr mu \<and> has_key mu v) =
       (\<exists>mv. getitem (incoming g) v = Inr mv \<and> has_key mv u)) \<and>
      ((\<exists>mu. getitem (outgoing g) u = Inr mu \<and> has_key mu v) =
       (\<exists>e. edge g u v = Inr (Some e))))"
proof -
  let ?g = "build Digraph_cls calls"
  have c: "consistent ?g" by (rule consistent_build)
  have "keys (outgoing ?g) = keys (incoming ?g)"
    using consistent_keys [OF c] by simp
  moreover have "(\<exists>mu. getitem (outgoing ?g) u = Inr mu \<and> has_key mu v) =
       (\<exists>mv. getitem (incoming ?g) v = Inr mv \<and> has_key mv u)"
    by (simp only: has_entry_iff consistent_lookup2 [OF c])
  moreover have "(\<exists>mu. getitem (outgoing ?g) u = Inr mu \<and> has_key mu v) =
       (\<exists>e. edge ?g u v = Inr (Some e))"
    by (simp only: has_entry_iff edge_Some_iff [OF c]) auto
  ultimately show ?thesis
    by (simp only: Let_def vertices_keys)
qed

subsection \<open>Removal of a vertex\<close>

text \<open>
  Claim C4. On a graph of either class built by calls of the public methods, and for a vertex
  \<open>v\<close> of it: \<^verbatim>\<open>remove_vertex(v)\<close> does not raise; its loop leaves no entry under \<open>v\<close> in an
  inner dictionary and none in the dictionaries of \<open>v\<close>, and only then are the two
  dictionaries of \<open>v\<close> popped. Afterwards \<open>v\<close> is not a vertex, every query on \<open>v\<close> raises the
  not-a-member error, no inner dictionary has the key \<open>v\<close> or holds an edge with endpoint
  \<open>v\<close>, and the entries between other vertices are as before.
\<close>

theorem remove_vertex_postcondition:
  assumes "v \<in> set (vertices (build c calls))"
  shows "\<exists>g1 g'.
     remove_vertex_loop c (vertices (build c calls)) (build c calls) v = (Inr (), g1) \<and>
     (\<forall>x. lookup2 (outgoing g1) x v = None \<and> lookup2 (outgoing g1) v x = None \<and>
          lookup2 (incoming g1) x v = None \<and> lookup2 (incoming g1) v x = None) \<and>
     g' = g1\<lparr>incoming := AList.delete v (incoming g1),
              outgoing := AList.delete v (outgoing g1)\<rparr> \<and>
     remove_vertex c (build c calls) v = (Inr (), g') \<and>
     set (vertices g') = set (vertices (build c calls)) - {v} \<and>
     contains g' v = Inr False \<and>
     validate_vertex g' v = Inl ValueError \<and>
     successors g' v = Inl ValueError \<and> predecessors g' v = Inl ValueError \<and>
     out_degree g' v = Inl ValueError \<and> in_degree g' v = Inl ValueError \<and>
     outgoing_edges g' v = Inl ValueError \<and> incoming_edges g' v = Inl ValueError \<and>
     remove_vertex c g' v = (Inl ValueError, g') \<and>
     (\<forall>w. isinstance_Vertex w \<longrightarrow>
          edge g' v w = Inl ValueError \<and> edge g' w v = Inl ValueError) \<and>
     (\<forall>u mu w e. (u, mu) \<in> set (outgoing g') \<or> (u, mu) \<in> set (incoming g') \<longrightarrow>
          (w, e) \<in> set mu \<longrightarrow> u \<noteq> v \<and> w \<noteq> v \<and> head e \<noteq> v \<and> tail e \<noteq> v) \<and>
     (\<forall>x y. x \<noteq> v \<longrightarrow> y \<noteq> v \<longrightarrow>
          lookup2 (outgoing g') x y = lookup2 (outgoing (build c calls)) x y)"
proof -
  let ?g = "build c calls"
  have c: "consistent ?g" by (rule consistent_build)
  have m: "v \<in> keys (outgoing ?g)" using assms by (simp add: vertices_keys)
  have iv: "isinstance_Vertex v" using c m by (rule consistent_member_Vertex)
  from remove_vertex_member [OF c m, of c]
  obtain g1 where
    loop: "remove_vertex_loop c (vertices ?g) ?g v = (Inr (), g1)" and
    c1: "consistent g1" and
    ko: "map fst (outgoing g1) = map fst (outgoing ?g)" and
    none: "\<And>x. lookup2 (outgoing g1) x v = None \<and> lookup2 (outgoing g1) v x = None" and
    same: "\<And>x y. x \<noteq> v \<Longrightarrow> y \<noteq> v \<Longrightarrow> lookup2 (outgoing g1) x y = lookup2 (outgoing ?g) x y" and
    rv: "remove_vertex c ?g v =
       (Inr (), g1\<lparr>incoming := AList.delete v (incoming g1),
                   outgoing := AList.delete v (outgoing g1)\<rparr>)"
    by blast
  let ?g' = "g1\<lparr>incoming := AList.delete v (incoming g1), outgoing := AList.delete v (outgoing g1)\<rparr>"
  have c': "consistent ?g'" using c1 none by (rule consistent_popped)
  have "keys (outgoing g1) = keys (outgoing ?g)"
    unfolding keys_def by (simp only: ko)
  then have k': "keys (outgoing ?g') = keys (outgoing ?g) - {v}"
    by (simp add: keys_delete)
  then have nm: "v \<notin> keys (outgoing ?g')" by simp
  have p1: "\<forall>x. lookup2 (outgoing g1) x v = None \<and> lookup2 (outgoing g1) v x = None \<and>
          lookup2 (incoming g1) x v = None \<and> lookup2 (incoming g1) v x = None"
    using none by (simp add: consistent_lookup2 [OF c1])
  have p2: "set (vertices ?g') = set (vertices ?g) - {v}"
    using k' by (simp only: vertices_keys)
  have p3: "remove_vertex c ?g' v = (Inl ValueError, ?g')"
    using remove_vertex_not_member [OF nm, of c] iv by simp
  have p4: "\<forall>w. isinstance_Vertex w \<longrightarrow>
          edge ?g' v w = Inl ValueError \<and> edge ?g' w v = Inl ValueError"
    using nm iv edge_not_member_Vertex [of v _ ?g'] edge_not_member_Vertex [of _ v ?g']
    by blast
  have p5: "\<forall>u mu w e. (u, mu) \<in> set (outgoing ?g') \<or> (u, mu) \<in> set (incoming ?g') \<longrightarrow>
          (w, e) \<in> set mu \<longrightarrow> u \<noteq> v \<and> w \<noteq> v \<and> head e \<noteq> v \<and> tail e \<noteq> v"
    using consistent_entry_not [OF c' nm] by blast
  have p6: "\<forall>x y. x \<noteq> v \<longrightarrow> y \<noteq> v \<longrightarrow>
          lookup2 (outgoing ?g') x y = lookup2 (outgoing ?g) x y"
    using same by (simp add: lookup2_delete)
  note q = query_not_member [OF iv nm]
  show ?thesis
    apply (rule exI [of _ g1])
    apply (rule exI [of _ ?g'])
    apply (intro conjI)
    apply (rule loop)
    apply (rule p1)
    apply (rule refl)
    apply (rule rv)
    apply (rule p2)
    apply (rule q)+
    apply (rule p3)
    apply (rule p4)
    apply (rule p5)
    apply (rule p6)
    done
qed

theorem remove_vertex_postcondition_witness:
  "bfs_a \<in> set (vertices bfs_graph) \<and>
   (\<exists>g'. remove_vertex Digraph_cls bfs_graph bfs_a = (Inr (), g') \<and>
      set (vertices g') = set (vertices bfs_graph) - {bfs_a} \<and>
      contains g' bfs_a = Inr False \<and>
      successors g' bfs_a = Inl ValueError \<and> predecessors g' bfs_a = Inl ValueError)"
proof -
  have h: "bfs_a \<in> set (vertices bfs_graph)" by code_simp
  from remove_vertex_postcondition [of bfs_a Digraph_cls bfs_calls, folded bfs_graph_def, OF h]
  obtain g1 g' where
    "remove_vertex Digraph_cls bfs_graph bfs_a = (Inr (), g')"
    "set (vertices g') = set (vertices bfs_graph) - {bfs_a}"
    "contains g' bfs_a = Inr False"
    "successors g' bfs_a = Inl ValueError" "predecessors g' bfs_a = Inl ValueError"
    by blast
  with h show ?thesis by blast
qed

subsection \<open>Removal of an edge\<close>

text \<open>
  Claim C5. On a digraph built by calls of the public methods, \<^verbatim>\<open>remove_edge(u, v)\<close> raises
  exactly when \<open>u\<close> or \<open>v\<close> is not a vertex of the graph, with the error of the lookup
  \<^verbatim>\<open>edge(u, v)\<close>, which for objects of class \<^verbatim>\<open>Vertex\<close> is the not-a-member error, and the
  graph is as before. When both are vertices and there is no edge from \<open>u\<close> to \<open>v\<close>, the
  call returns \<^verbatim>\<open>None\<close> and the graph is as before. When there is an edge, the call returns
  it, the entry is gone from both maps and every other entry is as before.
\<close>

theorem remove_edge_contract:
  "(let g = build Digraph_cls calls in
      ((\<exists>err. fst (Digraph_remove_edge g u v) = Inl err) =
         (u \<notin> set (vertices g) \<or> v \<notin> set (vertices g))) \<and>
      (\<forall>err. edge g u v = Inl err \<longrightarrow> Digraph_remove_edge g u v = (Inl err, g)) \<and>
      (isinstance_Vertex u \<and> isinstance_Vertex v \<and>
         (u \<notin> set (vertices g) \<or> v \<notin> set (vertices g)) \<longrightarrow>
         Digraph_remove_edge g u v = (Inl ValueError, g)) \<and>
      (edge g u v = Inr None \<longrightarrow> Digraph_remove_edge g u v = (Inr None, g)) \<and>
      (\<forall>e. edge g u v = Inr (Some e) \<longrightarrow>
         (\<exists>g'. Digraph_remove_edge g u v = (Inr (Some e), g') \<and>
            edge g' u v = Inr None \<and>
            vertices g' = vertices g \<and>
            (\<forall>x y. lookup2 (outgoing g') x y =
               (if x = u \<and> y = v then None else lookup2 (outgoing g) x y)) \<and>
            (\<forall>x y. lookup2 (incoming g') y x =
               (if x = u \<and> y = v then None else lookup2 (incoming g) y x)))))"
proof -
  let ?g = "build Digraph_cls calls"
  have c: "consistent ?g" by (rule consistent_build)
  have p1: "(\<exists>err. fst (Digraph_remove_edge ?g u v) = Inl err) =
         (u \<notin> set (vertices ?g) \<or> v \<notin> set (vertices ?g))"
  proof (cases "u \<in> keys (outgoing ?g) \<and> v \<in> keys (outgoing ?g)")
    case True
    then show ?thesis
      using c by (simp add: Digraph_remove_edge_member vertices_keys)
  next
    case False
    then obtain err where "Digraph_remove_edge ?g u v = (Inl err, ?g)"
      using Digraph_remove_edge_not_member [of u ?g v] by blast
    then show ?thesis using False by (simp add: vertices_keys)
  qed
  have p2: "\<forall>err. edge ?g u v = Inl err \<longrightarrow> Digraph_remove_edge ?g u v = (Inl err, ?g)"
    by (simp add: Digraph_remove_edge_def)
  have p3: "isinstance_Vertex u \<and> isinstance_Vertex v \<and>
         (u \<notin> set (vertices ?g) \<or> v \<notin> set (vertices ?g)) \<longrightarrow>
         Digraph_remove_edge ?g u v = (Inl ValueError, ?g)"
    using edge_not_member_Vertex [of u v ?g]
    by (auto simp: Digraph_remove_edge_def vertices_keys)
  have p4: "edge ?g u v = Inr None \<longrightarrow> Digraph_remove_edge ?g u v = (Inr None, ?g)"
    by (simp add: Digraph_remove_edge_def)
  have p5: "\<forall>e. edge ?g u v = Inr (Some e) \<longrightarrow>
         (\<exists>g'. Digraph_remove_edge ?g u v = (Inr (Some e), g') \<and>
            edge g' u v = Inr None \<and>
            vertices g' = vertices ?g \<and>
            (\<forall>x y. lookup2 (outgoing g') x y =
               (if x = u \<and> y = v then None else lookup2 (outgoing ?g) x y)) \<and>
            (\<forall>x y. lookup2 (incoming g') y x =
               (if x = u \<and> y = v then None else lookup2 (incoming ?g) y x)))"
  proof (intro allI impI)
    fix e
    assume e: "edge ?g u v = Inr (Some e)"
    let ?g' = "removed ?g u v"
    have m: "u \<in> keys (outgoing ?g)" "v \<in> keys (outgoing ?g)"
      using edge_Inr_members [OF c e] by simp_all
    have l: "lookup2 (outgoing ?g) u v = Some e"
      using e c m by (simp add: edge_member)
    have c': "consistent ?g'" using c by (rule consistent_removed)
    have "Digraph_remove_edge ?g u v = (Inr (Some e), ?g')"
      using c m l by (simp add: Digraph_remove_edge_member)
    moreover have "edge ?g' u v = Inr None"
      using c' m by (simp add: edge_member keys_removed lookup2_removed)
    moreover have "vertices ?g' = vertices ?g" by (rule vertices_removed)
    moreover have o: "\<forall>x y. lookup2 (outgoing ?g') x y =
               (if x = u \<and> y = v then None else lookup2 (outgoing ?g) x y)"
      by (intro allI) (rule lookup2_removed)
    moreover have "\<forall>x y. lookup2 (incoming ?g') y x =
               (if x = u \<and> y = v then None else lookup2 (incoming ?g) y x)"
      by (simp only: consistent_lookup2 [OF c'] consistent_lookup2 [OF c] o) simp
    ultimately show "\<exists>g'. Digraph_remove_edge ?g u v = (Inr (Some e), g') \<and>
            edge g' u v = Inr None \<and>
            vertices g' = vertices ?g \<and>
            (\<forall>x y. lookup2 (outgoing g') x y =
               (if x = u \<and> y = v then None else lookup2 (outgoing ?g) x y)) \<and>
            (\<forall>x y. lookup2 (incoming g') y x =
               (if x = u \<and> y = v then None else lookup2 (incoming ?g) y x))"
      by blast
  qed
  from p1 p2 p3 p4 p5 show ?thesis by (simp only: Let_def)
qed

theorem remove_edge_contract_witness:
  "edge bfs_graph bfs_b bfs_a = Inr (Some (Edge_init 1 bfs_b bfs_a ''BA'')) \<and>
   (\<exists>g'. Digraph_remove_edge bfs_graph bfs_b bfs_a = (Inr (Some (Edge_init 1 bfs_b bfs_a ''BA'')), g') \<and>
      edge g' bfs_b bfs_a = Inr None \<and> vertices g' = vertices bfs_graph \<and>
      lookup2 (outgoing g') bfs_a bfs_b = lookup2 (outgoing bfs_graph) bfs_a bfs_b) \<and>
   edge bfs_graph bfs_c bfs_d = Inr None \<and>
   Digraph_remove_edge bfs_graph bfs_c bfs_d = (Inr None, bfs_graph) \<and>
   isinstance_Vertex (Vertex 7) \<and> Vertex 7 \<notin> set (vertices bfs_graph) \<and>
   Digraph_remove_edge bfs_graph (Vertex 7) bfs_a = (Inl ValueError, bfs_graph)"
proof -
  have h1: "edge bfs_graph bfs_b bfs_a = Inr (Some (Edge_init 1 bfs_b bfs_a ''BA''))"
    by code_simp
  have h2: "edge bfs_graph bfs_c bfs_d = Inr None" by code_simp
  have h3: "isinstance_Vertex (Vertex 7)" "isinstance_Vertex bfs_a"
    "Vertex 7 \<notin> set (vertices bfs_graph)"
    by code_simp+
  have ne: "\<not> (bfs_a = bfs_b \<and> bfs_b = bfs_a)" by (simp add: bfs_a_def bfs_b_def)
  note t1 = remove_edge_contract [of bfs_calls bfs_b bfs_a, folded bfs_graph_def, unfolded Let_def]
  note t2 = remove_edge_contract [of bfs_calls bfs_c bfs_d, folded bfs_graph_def, unfolded Let_def]
  note t3 = remove_edge_contract [of bfs_calls "Vertex 7" bfs_a, folded bfs_graph_def, unfolded Let_def]
  from t1 h1 obtain g' where
    g': "Digraph_remove_edge bfs_graph bfs_b bfs_a = (Inr (Some (Edge_init 1 bfs_b bfs_a ''BA'')), g')"
      "edge g' bfs_b bfs_a = Inr None" "vertices g' = vertices bfs_graph"
      "\<forall>x y. lookup2 (outgoing g') x y =
               (if x = bfs_b \<and> y = bfs_a then None else lookup2 (outgoing bfs_graph) x y)"
    by blast
  from g'(4) ne have "lookup2 (outgoing g') bfs_a bfs_b = lookup2 (outgoing bfs_graph) bfs_a bfs_b"
    by simp
  with g' have "\<exists>g'. Digraph_remove_edge bfs_graph bfs_b bfs_a = (Inr (Some (Edge_init 1 bfs_b bfs_a ''BA'')), g') \<and>
      edge g' bfs_b bfs_a = Inr None \<and> vertices g' = vertices bfs_graph \<and>
      lookup2 (outgoing g') bfs_a bfs_b = lookup2 (outgoing bfs_graph) bfs_a bfs_b"
    by blast
  moreover from t2 h2 have "Digraph_remove_edge bfs_graph bfs_c bfs_d = (Inr None, bfs_graph)"
    by blast
  moreover from t3 h3 have "Digraph_remove_edge bfs_graph (Vertex 7) bfs_a = (Inl ValueError, bfs_graph)"
    by blast
  ultimately show ?thesis using h1 h2 h3 by blast
qed

subsection \<open>Reversal\<close>

text \<open>
  Claim C6. Calling \<^verbatim>\<open>reverse\<close> twice gives back the two maps of any graph; one call
  exchanges them, so that on a graph built by calls of the public methods the successors,
  predecessors, degrees and edge lists of a vertex are exchanged, and the edge from \<open>u\<close> to
  \<open>v\<close> of the reversed graph is the edge from \<open>v\<close> to \<open>u\<close> of the graph.
\<close>

theorem reverse_involution:
  "reverse (reverse g) = g \<and>
   outgoing (reverse g) = incoming g \<and> incoming (reverse g) = outgoing g \<and>
   (let h = build c calls in
      successors (reverse h) v = predecessors h v \<and>
      predecessors (reverse h) v = successors h v \<and>
      out_degree (reverse h) v = in_degree h v \<and>
      in_degree (reverse h) v = out_degree h v \<and>
      outgoing_edges (reverse h) v = incoming_edges h v \<and>
      incoming_edges (reverse h) v = outgoing_edges h v \<and>
      (isinstance_Vertex u \<and> isinstance_Vertex v \<longrightarrow> edge (reverse h) u v = edge h v u))"
proof -
  let ?h = "build c calls"
  have c: "consistent ?h" by (rule consistent_build)
  have r: "consistent (reverse ?h)" using c by (rule consistent_reverse)
  have io: "outgoing (reverse ?h) = incoming ?h" "incoming (reverse ?h) = outgoing ?h"
    by (simp_all add: reverse_def)
  have q: "successors (reverse ?h) v = predecessors ?h v"
    "predecessors (reverse ?h) v = successors ?h v"
    "out_degree (reverse ?h) v = in_degree ?h v"
    "in_degree (reverse ?h) v = out_degree ?h v"
    "outgoing_edges (reverse ?h) v = incoming_edges ?h v"
    "incoming_edges (reverse ?h) v = outgoing_edges ?h v"
    by (simp_all add: successors_def predecessors_def out_degree_def in_degree_def
        outgoing_edges_def incoming_edges_def validate_vertex_reverse [OF c] io
        split: sum.splits)
  have e: "edge (reverse ?h) u v = edge ?h v u"
    if "isinstance_Vertex u" "isinstance_Vertex v"
  proof (cases "u \<in> keys (outgoing ?h) \<and> v \<in> keys (outgoing ?h)")
    case True
    then have "u \<in> keys (outgoing (reverse ?h)) \<and> v \<in> keys (outgoing (reverse ?h))"
      using consistent_keys [OF c] by (simp add: io)
    then have "edge (reverse ?h) u v = Inr (lookup2 (incoming ?h) u v)"
      using r by (simp add: edge_member io)
    then show ?thesis
      using True c by (simp add: edge_member consistent_lookup2)
  next
    case False
    then have "u \<notin> keys (outgoing (reverse ?h)) \<or> v \<notin> keys (outgoing (reverse ?h))"
      using consistent_keys [OF c] by (simp add: io)
    then have "edge (reverse ?h) u v = Inl ValueError"
      using that by (simp add: edge_not_member_Vertex)
    moreover have "edge ?h v u = Inl ValueError"
      using that False edge_not_member_Vertex [of v u ?h] by blast
    ultimately show ?thesis by simp
  qed
  have "reverse (reverse g) = g" by (simp add: reverse_def)
  moreover have "outgoing (reverse g) = incoming g" "incoming (reverse g) = outgoing g"
    by (simp_all add: reverse_def)
  ultimately show ?thesis
    using q e by (simp only: Let_def) blast
qed

theorem reverse_involution_witness:
  "isinstance_Vertex bfs_d \<and> isinstance_Vertex bfs_a \<and>
   edge (reverse bfs_graph) bfs_d bfs_a = edge bfs_graph bfs_a bfs_d \<and>
   edge bfs_graph bfs_a bfs_d = Inr (Some (Edge_init 4 bfs_a bfs_d ''AD'')) \<and>
   reverse (reverse bfs_graph) = bfs_graph"
proof -
  have h: "isinstance_Vertex bfs_d" "isinstance_Vertex bfs_a"
    "edge bfs_graph bfs_a bfs_d = Inr (Some (Edge_init 4 bfs_a bfs_d ''AD''))"
    by code_simp+
  note t = reverse_involution [of bfs_graph Digraph_cls bfs_calls bfs_a bfs_d,
      folded bfs_graph_def, unfolded Let_def]
  from t h show ?thesis by blast
qed

subsection \<open>A second edge between the same vertices\<close>

text \<open>
  Claim C7, as the code has it. On a digraph built by calls of the public methods that holds
  the edge \<open>e1\<close> from \<open>u\<close> to \<open>v\<close>, \<^verbatim>\<open>insert_edge\<close> of another edge object \<open>e2\<close> with head \<open>u\<close>
  and tail \<open>v\<close> returns \<open>e2\<close>; afterwards \<^verbatim>\<open>edge(u, v)\<close> returns \<open>e2\<close>, and \<^verbatim>\<open>vertex_count()\<close> and
  \<^verbatim>\<open>edge_count()\<close> are as before. The object \<open>e1\<close> is no longer in \<^verbatim>\<open>edges()\<close> when it was the
  entry of no other ordered pair, which is so in every digraph built without \<^verbatim>\<open>reverse\<close>.
\<close>

theorem last_write_wins:
  assumes "edge (build Digraph_cls calls) u v = Inr (Some e1)"
    and "head e2 = u" "tail e2 = v" "e2 \<noteq> e1"
  shows "\<exists>g'. Digraph_insert_edge (build Digraph_cls calls) e2 = (Inr e2, g') \<and>
     edge g' u v = Inr (Some e2) \<and>
     vertex_count g' = vertex_count (build Digraph_cls calls) \<and>
     edge_count g' = edge_count (build Digraph_cls calls) \<and>
     ((\<forall>x y. lookup2 (outgoing (build Digraph_cls calls)) x y = Some e1 \<longrightarrow> x = u \<and> y = v) \<longrightarrow>
        e1 \<notin> set (edges g')) \<and>
     (Reverse \<notin> set calls \<longrightarrow> e1 \<notin> set (edges g'))"
proof -
  let ?g = "build Digraph_cls calls"
  let ?g' = "Digraph_inserted ?g e2"
  have c: "consistent ?g" by (rule consistent_build)
  have l: "lookup2 (outgoing ?g) u v = Some e1"
    using assms(1) c by (simp add: edge_Some_iff)
  have k: "u \<in> keys (outgoing ?g)" "v \<in> keys (outgoing ?g)"
    using consistent_lookup2_members [OF c l] by simp_all
  have iv: "isinstance_Vertex (head e2)" "isinstance_Vertex (tail e2)"
    using k assms(2,3) consistent_member_Vertex [OF c] by simp_all
  have c': "consistent ?g'" using c iv by (rule consistent_Digraph_inserted)
  have ins: "Digraph_insert_edge ?g e2 = (Inr e2, ?g')"
    using c iv by (simp add: Digraph_insert_edge_cases)
  have o: "outgoing ?g' = put2 (outgoing ?g) u v e2"
    using k assms(2,3) by (simp add: Digraph_inserted_def Let_def add_vertex_member)
  have l': "lookup2 (outgoing ?g') x y = (if x = u \<and> y = v then Some e2 else lookup2 (outgoing ?g) x y)"
    for x y
    using assms(2,3) by (simp add: lookup2_Digraph_inserted)
  have p1: "edge ?g' u v = Inr (Some e2)"
    using c' by (simp add: edge_Some_iff l')
  have p2: "vertex_count ?g' = vertex_count ?g"
    by (simp add: vertex_count_def o length_put2)
  have "entries (outgoing ?g') = entries (outgoing ?g)"
    using k l by (simp add: o entries_put2)
  moreover have "edge_count ?g' = entries (outgoing ?g')" "edge_count ?g = entries (outgoing ?g)"
    using c c' by (simp_all add: edge_count_entries consistent_def dict_ok_def)
  ultimately have p3: "edge_count ?g' = edge_count ?g" by simp
  have only: "e1 \<notin> set (edges ?g')"
    if h: "\<forall>x y. lookup2 (outgoing ?g) x y = Some e1 \<longrightarrow> x = u \<and> y = v"
  proof
    assume "e1 \<in> set (edges ?g')"
    then have "e1 \<in> stored (outgoing ?g')" using edges_subset_stored [of ?g'] by blast
    moreover have "dict_ok (outgoing ?g')" using c' by (simp add: consistent_def)
    ultimately obtain x y where "lookup2 (outgoing ?g') x y = Some e1"
      using stored_lookup2 by blast
    then have "(x = u \<and> y = v \<and> e2 = e1) \<or> (\<not> (x = u \<and> y = v) \<and> lookup2 (outgoing ?g) x y = Some e1)"
      unfolding l' if_Some_eq_iff by blast
    with assms(4) h show False by blast
  qed
  have "e1 \<notin> set (edges ?g')" if "Reverse \<notin> set calls"
  proof (rule only, intro allI impI)
    fix x y
    assume "lookup2 (outgoing ?g) x y = Some e1"
    with alignedD [OF aligned_build [OF that]] l show "x = u \<and> y = v" by metis
  qed
  with ins p1 p2 p3 only show ?thesis by blast
qed

theorem last_write_wins_witness:
  "edge bfs_graph bfs_a bfs_b = Inr (Some (Edge_init 0 bfs_a bfs_b ''AB'')) \<and>
   head (Edge_init 9 bfs_a bfs_b ''AB2'') = bfs_a \<and>
   tail (Edge_init 9 bfs_a bfs_b ''AB2'') = bfs_b \<and>
   Edge_init 9 bfs_a bfs_b ''AB2'' \<noteq> Edge_init 0 bfs_a bfs_b ''AB'' \<and>
   Reverse \<notin> set bfs_calls \<and>
   (\<exists>g'. Digraph_insert_edge bfs_graph (Edge_init 9 bfs_a bfs_b ''AB2'')
        = (Inr (Edge_init 9 bfs_a bfs_b ''AB2''), g') \<and>
      edge g' bfs_a bfs_b = Inr (Some (Edge_init 9 bfs_a bfs_b ''AB2'')) \<and>
      vertex_count g' = vertex_count bfs_graph \<and>
      edge_count g' = edge_count bfs_graph \<and>
      Edge_init 0 bfs_a bfs_b ''AB'' \<notin> set (edges g'))"
proof -
  have h: "edge bfs_graph bfs_a bfs_b = Inr (Some (Edge_init 0 bfs_a bfs_b ''AB''))"
    "head (Edge_init 9 bfs_a bfs_b ''AB2'') = bfs_a"
    "tail (Edge_init 9 bfs_a bfs_b ''AB2'') = bfs_b"
    "Edge_init 9 bfs_a bfs_b ''AB2'' \<noteq> Edge_init 0 bfs_a bfs_b ''AB''"
    by code_simp+
  have r: "Reverse \<notin> set bfs_calls" by (simp add: bfs_calls_def)
  note t = last_write_wins [of bfs_calls bfs_a bfs_b, folded bfs_graph_def, OF h]
  from t r have "\<exists>g'. Digraph_insert_edge bfs_graph (Edge_init 9 bfs_a bfs_b ''AB2'')
        = (Inr (Edge_init 9 bfs_a bfs_b ''AB2''), g') \<and>
      edge g' bfs_a bfs_b = Inr (Some (Edge_init 9 bfs_a bfs_b ''AB2'')) \<and>
      vertex_count g' = vertex_count bfs_graph \<and>
      edge_count g' = edge_count bfs_graph \<and>
      Edge_init 0 bfs_a bfs_b ''AB'' \<notin> set (edges g')"
    by blast
  with h r show ?thesis by (intro conjI)
qed

text \<open>
  The claim as written fails after \<^verbatim>\<open>reverse\<close>: the object \<open>first_edge\<close>, from vertex 0 to
  vertex 1, is inserted, the graph is reversed, and the object is inserted again, which
  leaves it under both ordered pairs. After \<^verbatim>\<open>insert_edge\<close> of \<open>second_edge\<close>, also from vertex
  0 to vertex 1, \<^verbatim>\<open>edges()\<close> meets \<open>first_edge\<close> under the key of vertex 1 first and keeps it.
\<close>

theorem last_write_wins_counterexample:
  "edge (build Digraph_cls reversed_calls) (Vertex 0) (Vertex 1) = Inr (Some first_edge) \<and>
   head first_edge = Vertex 0 \<and> tail first_edge = Vertex 1 \<and>
   head second_edge = Vertex 0 \<and> tail second_edge = Vertex 1 \<and>
   ident second_edge \<noteq> ident first_edge \<and>
   fst (Digraph_insert_edge (build Digraph_cls reversed_calls) second_edge) = Inr second_edge \<and>
   edge (snd (Digraph_insert_edge (build Digraph_cls reversed_calls) second_edge))
     (Vertex 0) (Vertex 1) = Inr (Some second_edge) \<and>
   first_edge \<in> set (edges (snd (Digraph_insert_edge (build Digraph_cls reversed_calls) second_edge))) \<and>
   edges (snd (Digraph_insert_edge (build Digraph_cls reversed_calls) second_edge)) = [first_edge]"
  by code_simp

subsection \<open>The traversal of \<^verbatim>\<open>chap14/bfs.py\<close>\<close>

text \<open>
  Claim C8. On the digraph with vertices A, B, C, D and edges AB, BA, AC, CA, AD, BC, BD, the
  breadth-first traversal seeded at A ends, with an empty frontier and every vertex black;
  A is at distance 0, B, C and D are at distance 1, and A is the predecessor of B, C and D.
  The complete traversal, which the program calls, starts at A (the first vertex of the
  graph) and ends with the same distances and predecessors.
\<close>

theorem bfs_scenario:
  "(case breadth_first_search bfs_graph bfs_start [bfs_a] of
      Some (Inr st) \<Rightarrow>
        frontier st = [] \<and>
        vertex_distance (store st bfs_a) = 0 \<and> vertex_distance (store st bfs_b) = 1 \<and>
        vertex_distance (store st bfs_c) = 1 \<and> vertex_distance (store st bfs_d) = 1 \<and>
        predecessor (store st bfs_b) = Some bfs_a \<and> predecessor (store st bfs_c) = Some bfs_a \<and>
        predecessor (store st bfs_d) = Some bfs_a \<and>
        color (store st bfs_a) = Black \<and> color (store st bfs_b) = Black \<and>
        color (store st bfs_c) = Black \<and> color (store st bfs_d) = Black
    | _ \<Rightarrow> False) \<and>
   (case complete_breadth_first_search bfs_graph bfs_start of
      Some (Inr st) \<Rightarrow>
        vertex_distance (store st bfs_a) = 0 \<and> vertex_distance (store st bfs_b) = 1 \<and>
        vertex_distance (store st bfs_c) = 1 \<and> vertex_distance (store st bfs_d) = 1 \<and>
        predecessor (store st bfs_b) = Some bfs_a \<and> predecessor (store st bfs_c) = Some bfs_a \<and>
        predecessor (store st bfs_d) = Some bfs_a
    | _ \<Rightarrow> False)"
  by code_simp

subsection \<open>The incoming map of the undirected graph\<close>

text \<open>
  Claim C9. In every graph built from the empty \<^verbatim>\<open>Graph\<close> by calls of the public methods
  (\<^verbatim>\<open>reverse\<close> among them), the incoming map is equal to the outgoing map, key for key and
  entry for entry, in the same order; so \<^verbatim>\<open>reverse\<close> leaves the graph, and with it the
  result of every query, as it was.
\<close>

theorem undirected_incoming_redundant:
  "(let g = build Graph_cls calls in
      incoming g = outgoing g \<and>
      reverse g = g \<and>
      edge (reverse g) u v = edge g u v \<and>
      successors (reverse g) v = successors g v \<and>
      predecessors (reverse g) v = predecessors g v \<and>
      out_degree (reverse g) v = out_degree g v \<and>
      in_degree (reverse g) v = in_degree g v \<and>
      edges (reverse g) = edges g \<and>
      predecessors g v = successors g v \<and>
      in_degree g v = out_degree g v)"
proof -
  let ?g = "build Graph_cls calls"
  have m: "mirrored ?g" by (rule mirrored_build)
  then have eq: "incoming ?g = outgoing ?g" by (simp add: mirrored_def)
  have r: "reverse ?g = ?g" using m by (rule mirrored_reverse)
  have "predecessors ?g v = successors ?g v" "in_degree ?g v = out_degree ?g v"
    by (simp_all only: predecessors_def successors_def in_degree_def out_degree_def eq)
  with eq r show ?thesis by (simp only: Let_def r)
qed

subsection \<open>Counting the edges of the undirected graph\<close>

text \<open>
  Claim C10. On a graph built from the empty \<^verbatim>\<open>Graph\<close> by calls of the public methods,
  \<^verbatim>\<open>insert_edge\<close> of an edge \<open>e\<close> between two objects of class \<^verbatim>\<open>Vertex\<close> that are not yet
  adjacent adds 2 to \<^verbatim>\<open>edge_count()\<close> when the endpoints are distinct and 1 when \<open>e\<close> is a
  self-loop, and adds the one object \<open>e\<close> to \<^verbatim>\<open>edges()\<close>.
\<close>

theorem undirected_edge_count:
  assumes "isinstance_Vertex (head e)" "isinstance_Vertex (tail e)"
    and "\<forall>x. edge (build Graph_cls calls) (head e) (tail e) \<noteq> Inr (Some x)"
  shows "\<exists>g'. Graph_insert_edge (build Graph_cls calls) e = (Inr e, g') \<and>
     edge_count g' = edge_count (build Graph_cls calls) + (if head e = tail e then 1 else 2) \<and>
     e \<notin> set (edges (build Graph_cls calls)) \<and>
     set (edges g') = insert e (set (edges (build Graph_cls calls))) \<and>
     distinct (edges g') \<and>
     length (edges g') = length (edges (build Graph_cls calls)) + 1"
proof -
  let ?g = "build Graph_cls calls"
  let ?u = "head e" and ?v = "tail e"
  let ?g2 = "add_vertex (add_vertex ?g ?u) ?v"
  let ?g' = "Graph_inserted ?g e"
  have m: "mirrored ?g" by (rule mirrored_build)
  have c: "consistent ?g" by (rule consistent_build)
  have m': "mirrored ?g'" using m assms(1,2) by (rule mirrored_Graph_inserted)
  then have c': "consistent ?g'" by (simp add: mirrored_def)
  have ins: "Graph_insert_edge ?g e = (Inr e, ?g')"
    using c assms(1,2) by (simp add: Graph_insert_edge_cases)
  have n1: "lookup2 (outgoing ?g) ?u ?v = None"
    using c assms(3) by (rule not_adjacent_lookup2)
  have n2: "lookup2 (outgoing ?g) ?v ?u = None"
    using n1 mirrored_symmetric [OF m, of ?v ?u] by simp
  have k2: "?u \<in> keys (outgoing ?g2)" "?v \<in> keys (outgoing ?g2)"
    by (simp_all add: keys_outgoing_add_vertex)
  have l2: "lookup2 (outgoing ?g2) x y = lookup2 (outgoing ?g) x y" for x y
    by (simp add: lookup2_outgoing_add_vertex)
  have o: "outgoing ?g' = put2 (put2 (outgoing ?g2) ?u ?v e) ?v ?u e"
    by (simp add: Graph_inserted_def Let_def)
  have "lookup2 (put2 (outgoing ?g2) ?u ?v e) ?v ?u = (if ?u = ?v then Some e else None)"
    using k2 n2 by (auto simp: lookup2_put2 l2)
  then have "entries (outgoing ?g') = entries (outgoing ?g2) + 1 + (if ?u = ?v then 0 else 1)"
    using k2 n1 by (simp add: o entries_put2 keys_put2 l2)
  then have "entries (outgoing ?g') = entries (outgoing ?g) + (if ?u = ?v then 1 else 2)"
    by (simp add: entries_add_vertex)
  moreover have "edge_count ?g' = entries (outgoing ?g')" "edge_count ?g = entries (outgoing ?g)"
    using c c' by (simp_all add: edge_count_entries consistent_def dict_ok_def)
  ultimately have p1: "edge_count ?g' = edge_count ?g + (if ?u = ?v then 1 else 2)"
    by simp
  have s: "set (edges ?g) = stored (outgoing ?g)" "set (edges ?g') = stored (outgoing ?g')"
    using m m' by (simp_all add: edges_unique mirrored_unique)
  have d: "dict_ok (outgoing ?g)" "dict_ok (outgoing ?g')"
    using c c' by (simp_all add: consistent_def)
  have p2: "e \<notin> set (edges ?g)"
  proof
    assume "e \<in> set (edges ?g)"
    then obtain a b where ab: "lookup2 (outgoing ?g) a b = Some e"
      using s(1) stored_lookup2 [OF d(1)] by blast
    then have "joins e a b" using c by (intro consistent_joins)
    then have "(a = ?u \<and> b = ?v) \<or> (a = ?v \<and> b = ?u)"
      unfolding joins_def by metis
    with ab n1 n2 show False by auto
  qed
  have p3: "set (edges ?g') = insert e (set (edges ?g))"
  proof (rule set_eqI)
    fix x
    have "(x \<in> stored (outgoing ?g')) =
        (\<exists>a b. (if (a = ?u \<and> b = ?v) \<or> (a = ?v \<and> b = ?u) then Some e
                else lookup2 (outgoing ?g) a b) = Some x)"
      by (simp only: stored_lookup2 [OF d(2)] lookup2_Graph_inserted)
    also have "\<dots> = (x = e \<or> (\<exists>a b. lookup2 (outgoing ?g) a b = Some x))"
    proof
      assume "\<exists>a b. (if (a = ?u \<and> b = ?v) \<or> (a = ?v \<and> b = ?u) then Some e
                else lookup2 (outgoing ?g) a b) = Some x"
      then obtain a b where "(if (a = ?u \<and> b = ?v) \<or> (a = ?v \<and> b = ?u) then Some e
                else lookup2 (outgoing ?g) a b) = Some x"
        by blast
      then show "x = e \<or> (\<exists>a b. lookup2 (outgoing ?g) a b = Some x)"
        unfolding if_Some_eq_iff by blast
    next
      assume "x = e \<or> (\<exists>a b. lookup2 (outgoing ?g) a b = Some x)"
      then show "\<exists>a b. (if (a = ?u \<and> b = ?v) \<or> (a = ?v \<and> b = ?u) then Some e
                else lookup2 (outgoing ?g) a b) = Some x"
      proof
        assume "x = e"
        then have "(if (?u = ?u \<and> ?v = ?v) \<or> (?u = ?v \<and> ?v = ?u) then Some e
                else lookup2 (outgoing ?g) ?u ?v) = Some x"
          by (simp only: simp_thms if_True)
        then show ?thesis by blast
      next
        assume "\<exists>a b. lookup2 (outgoing ?g) a b = Some x"
        then obtain a b where ab: "lookup2 (outgoing ?g) a b = Some x" by blast
        then have "\<not> ((a = ?u \<and> b = ?v) \<or> (a = ?v \<and> b = ?u))"
          using n1 n2 by auto
        then have "(if (a = ?u \<and> b = ?v) \<or> (a = ?v \<and> b = ?u) then Some e
                else lookup2 (outgoing ?g) a b) = Some x"
          using ab by (simp only: if_False)
        then show ?thesis by blast
      qed
    qed
    also have "\<dots> = (x \<in> insert e (stored (outgoing ?g)))"
      by (simp only: stored_lookup2 [OF d(1)] insert_iff)
    finally show "(x \<in> set (edges ?g')) = (x \<in> insert e (set (edges ?g)))"
      by (simp only: s)
  qed
  have p4: "distinct (edges ?g')" by (rule distinct_edges)
  have "card (set (edges ?g')) = card (set (edges ?g)) + 1"
    using p2 by (simp add: p3)
  then have p5: "length (edges ?g') = length (edges ?g) + 1"
    using distinct_card [OF distinct_edges [of ?g']] distinct_card [OF distinct_edges [of ?g]]
    by simp
  from ins p1 p2 p3 p4 p5 show ?thesis by blast
qed

theorem undirected_edge_count_witness:
  "isinstance_Vertex (head (Edge_init 7 bfs_c bfs_d ''CD'')) \<and>
   isinstance_Vertex (tail (Edge_init 7 bfs_c bfs_d ''CD'')) \<and>
   edge (build Graph_cls bfs_calls) (head (Edge_init 7 bfs_c bfs_d ''CD''))
     (tail (Edge_init 7 bfs_c bfs_d ''CD'')) = Inr None \<and>
   edge_count (build Graph_cls bfs_calls) = 10 \<and>
   length (edges (build Graph_cls bfs_calls)) = 5 \<and>
   (\<exists>g'. Graph_insert_edge (build Graph_cls bfs_calls) (Edge_init 7 bfs_c bfs_d ''CD'')
        = (Inr (Edge_init 7 bfs_c bfs_d ''CD''), g') \<and>
      edge_count g' = 12 \<and> length (edges g') = 6 \<and>
      Edge_init 7 bfs_c bfs_d ''CD'' \<in> set (edges g')) \<and>
   isinstance_Vertex (head (Edge_init 8 bfs_a bfs_a ''AA'')) \<and>
   edge (build Graph_cls bfs_calls) (head (Edge_init 8 bfs_a bfs_a ''AA''))
     (tail (Edge_init 8 bfs_a bfs_a ''AA'')) = Inr None \<and>
   (\<exists>g'. Graph_insert_edge (build Graph_cls bfs_calls) (Edge_init 8 bfs_a bfs_a ''AA'')
        = (Inr (Edge_init 8 bfs_a bfs_a ''AA''), g') \<and>
      edge_count g' = 11 \<and> length (edges g') = 6)"
proof -
  let ?G = "build Graph_cls bfs_calls"
  let ?cd = "Edge_init 7 bfs_c bfs_d ''CD''"
  let ?aa = "Edge_init 8 bfs_a bfs_a ''AA''"
  have v: "isinstance_Vertex (head ?cd)" "isinstance_Vertex (tail ?cd)"
    "isinstance_Vertex (head ?aa)" "isinstance_Vertex (tail ?aa)"
    by code_simp+
  have n: "edge ?G (head ?cd) (tail ?cd) = Inr None" "edge ?G (head ?aa) (tail ?aa) = Inr None"
    by code_simp+
  have k: "edge_count ?G = 10" "length (edges ?G) = 5"
    by code_simp+
  have d: "head ?cd \<noteq> tail ?cd" "head ?aa = tail ?aa"
    by code_simp+
  have n1: "\<forall>x. edge ?G (head ?cd) (tail ?cd) \<noteq> Inr (Some x)"
    by (simp add: n)
  have n2: "\<forall>x. edge ?G (head ?aa) (tail ?aa) \<noteq> Inr (Some x)"
    by (simp add: n)
  from undirected_edge_count [OF v(1,2) n1] obtain g1 where
    g1: "Graph_insert_edge ?G ?cd = (Inr ?cd, g1)"
      "edge_count g1 = edge_count ?G + (if head ?cd = tail ?cd then 1 else 2)"
      "set (edges g1) = insert ?cd (set (edges ?G))"
      "length (edges g1) = length (edges ?G) + 1"
    by blast
  from undirected_edge_count [OF v(3,4) n2] obtain g2 where
    g2: "Graph_insert_edge ?G ?aa = (Inr ?aa, g2)"
      "edge_count g2 = edge_count ?G + (if head ?aa = tail ?aa then 1 else 2)"
      "length (edges g2) = length (edges ?G) + 1"
    by blast
  have "edge_count g1 = 12" "length (edges g1) = 6" "?cd \<in> set (edges g1)"
    using g1 k d(1) by simp_all
  with g1(1) have a: "\<exists>g'. Graph_insert_edge ?G ?cd = (Inr ?cd, g') \<and>
      edge_count g' = 12 \<and> length (edges g') = 6 \<and> ?cd \<in> set (edges g')"
    by blast
  have "edge_count g2 = 11" "length (edges g2) = 6"
    using g2 k d(2) by simp_all
  with g2(1) have b: "\<exists>g'. Graph_insert_edge ?G ?aa = (Inr ?aa, g') \<and>
      edge_count g' = 11 \<and> length (edges g') = 6"
    by blast
  from v n k a b show ?thesis by (intro conjI)
qed

end
